theory Spec2Isabelle
  imports Complex_Main "HOL-Library.AList" "HOL-Library.Log_Nat" "HOL-Library.Word"
begin

section \<open>The editor of the active note (the document sink)\<close>

text \<open>
  The plugin talks to the editor through \<open>getCursor\<close>, \<open>replaceRange\<close> and
  \<open>setCursor\<close> only. The editor is modelled by the cursor it reports and by the
  sequence of \<open>replaceRange\<close> calls it has received, each with its text and position.
  Status notices and log lines are not part of the model.
\<close>

record position =
  line :: nat
  ch :: nat

record editor =
  cursor :: position
  replaceRange_calls :: "(string \<times> position) list"

definition getCursor :: "editor \<Rightarrow> position" where
  "getCursor e = cursor e"

definition replaceRange :: "string \<Rightarrow> position \<Rightarrow> editor \<Rightarrow> editor" where
  "replaceRange text pos e = e\<lparr>replaceRange_calls := replaceRange_calls e @ [(text, pos)]\<rparr>"

definition setCursor :: "position \<Rightarrow> editor \<Rightarrow> editor" where
  "setCursor pos e = e\<lparr>cursor := pos\<rparr>"

section \<open>The plugin object (src/main.js, class WhisperTranscriptionPlugin)\<close>

datatype engine = DesktopEngine | MobilePipeline string

record plugin =
  transcriber :: "engine option"
  isModelLoading :: bool
  isRecording :: bool
  mediaStream :: bool
  targetEditor :: "editor option"
  processingCount :: int
  chunkNumber :: nat
  isStopping :: bool
  nextInsertChunk :: nat
  pendingResults :: "(nat \<times> string) list"

subsection \<open>The content filter of \<open>flushPendingResults\<close>\<close>

definition startsWith :: "string \<Rightarrow> char \<Rightarrow> bool" where
  "startsWith text c = (case text of [] \<Rightarrow> False | x # _ \<Rightarrow> x = c)"

definition endsWith :: "string \<Rightarrow> char \<Rightarrow> bool" where
  "endsWith text c = (text \<noteq> [] \<and> last text = c)"

text \<open>
  The condition of the \<open>if\<close> in the loop body:
  \<^verbatim>\<open>text && text.length > 0 && text !== 'you' && !(text.startsWith('[') && text.endsWith(']'))
     && !(text.startsWith('(') && text.endsWith(')'))\<close>
  A JavaScript string is falsy exactly when it is empty.
\<close>

definition insertable :: "string \<Rightarrow> bool" where
  "insertable text =
     (text \<noteq> [] \<and> 0 < length text \<and> text \<noteq> ''you''
      \<and> \<not> (startsWith text CHR ''['' \<and> endsWith text CHR '']'')
      \<and> \<not> (startsWith text CHR ''('' \<and> endsWith text CHR '')''))"

text \<open>The statement guarded by that condition: insert at the cursor, then move the cursor.\<close>

definition insertChunkText :: "string \<Rightarrow> plugin \<Rightarrow> plugin" where
  "insertChunkText text s =
     (if insertable text then
        (case targetEditor s of
           Some e \<Rightarrow>
             (let cur = getCursor e;
                  insertText = text @ '' '';
                  e1 = replaceRange insertText cur e;
                  newPos = \<lparr>line = line cur, ch = ch cur + length insertText\<rparr>
              in s\<lparr>targetEditor := Some (setCursor newPos e1)\<rparr>)
         | None \<Rightarrow> s)
      else s)"

subsection \<open>The sequencer\<close>

text \<open>
  \<open>pendingResults\<close> is a JavaScript \<open>Map\<close> from chunk number to text: an association
  list read with \<open>map_of\<close>, written with \<open>AList.update\<close> and \<open>AList.delete\<close>.
  The \<open>while\<close> loop of \<open>flushPendingResults\<close> removes one entry per iteration.
\<close>

function flushPendingResults :: "plugin \<Rightarrow> plugin" where
  "flushPendingResults s =
     (case map_of (pendingResults s) (nextInsertChunk s) of
        None \<Rightarrow> s
      | Some text \<Rightarrow>
          flushPendingResults
            ((insertChunkText text
                (s\<lparr>pendingResults := AList.delete (nextInsertChunk s) (pendingResults s)\<rparr>))
             \<lparr>nextInsertChunk := nextInsertChunk s + 1\<rparr>))"
  by pat_completeness auto
termination
proof (relation "measure (\<lambda>s. length (pendingResults s))")
  show "wf (measure (\<lambda>s. length (pendingResults s)))" by simp
next
  fix s :: plugin and t
  assume "map_of (pendingResults s) (nextInsertChunk s) = Some t"
  then have "(nextInsertChunk s, t) \<in> set (pendingResults s)" by (rule map_of_SomeD)
  then have "length (filter (\<lambda>(k', _). nextInsertChunk s \<noteq> k') (pendingResults s))
               < length (pendingResults s)"
    by (rule length_filter_less) simp
  then have "length (AList.delete (nextInsertChunk s) (pendingResults s)) < length (pendingResults s)"
    by (simp add: AList.delete_eq)
  then show "(insertChunkText t (s\<lparr>pendingResults := AList.delete (nextInsertChunk s) (pendingResults s)\<rparr>)
                \<lparr>nextInsertChunk := nextInsertChunk s + 1\<rparr>, s)
             \<in> measure (\<lambda>s. length (pendingResults s))"
    by (simp add: insertChunkText_def Let_def split: option.split)
qed

text \<open>
  The two statements at the end of the \<open>try\<close> block of \<open>transcribeAudio\<close>:
  \<^verbatim>\<open>this.pendingResults.set(chunkNum, text); this.flushPendingResults();\<close>
\<close>

definition submitResult :: "nat \<Rightarrow> string \<Rightarrow> plugin \<Rightarrow> plugin" where
  "submitResult chunkNum text s =
     flushPendingResults (s\<lparr>pendingResults := AList.update chunkNum text (pendingResults s)\<rparr>)"

subsection \<open>\<open>transcribeAudio\<close>, split at its awaits\<close>

text \<open>
  \<open>String.prototype.trim\<close> on the characters a \<open>char\<close> can hold: tab, line feed,
  vertical tab, form feed, carriage return, space and no-break space.
\<close>

definition isWhiteSpace :: "char \<Rightarrow> bool" where
  "isWhiteSpace c = (c \<in> set [CHR 0x09, CHR 0x0A, CHR 0x0B, CHR 0x0C, CHR 0x0D, CHR 0x20, CHR 0xA0])"

definition trim :: "string \<Rightarrow> string" where
  "trim text = rev (dropWhile isWhiteSpace (rev (dropWhile isWhiteSpace text)))"

text \<open>
  What the awaited part of \<open>transcribeAudio\<close> (decoding, resampling, the transcriber
  call) comes back with: a result object whose \<open>text\<close> field may be missing, or an
  exception.
\<close>

datatype transcription = Transcribed "string option" | Threw

text \<open>
  JavaScript runs each callback to completion, so the code between two awaits is one
  atomic step. A session is the plugin object together with the callbacks the runtime
  still holds: the recorders whose \<open>stop\<close> event is still to come (each with the chunk
  number its closure captured) and the \<open>transcribeAudio\<close> calls suspended at an await
  (each with its \<open>chunkNum\<close>). Neither \<open>stopRecording\<close> nor \<open>startRecording\<close> cancels
  or awaits any of them, so both lists can hold callbacks of an earlier recording.
  \<open>currentRecorder\<close> is not modelled: the plugin only uses it to ask a recorder to stop,
  and here a recorder may stop at any time.
\<close>

record session =
  plug :: plugin
  recorders :: "nat list"
  inFlight :: "nat list"

definition recordChunk :: "session \<Rightarrow> session" where
  "recordChunk ss =
     (let s = plug ss in
      if \<not> isRecording s \<or> \<not> mediaStream s then ss
      else ss\<lparr>plug := s\<lparr>chunkNumber := chunkNumber s + 1\<rparr>,
              recorders := recorders ss @ [chunkNumber s + 1]\<rparr>)"

text \<open>The synchronous prefix of \<open>transcribeAudio\<close>: the two guards and the counter.\<close>

definition transcribeAudio_begin :: "nat \<Rightarrow> session \<Rightarrow> session" where
  "transcribeAudio_begin chunkNum ss =
     (let s = plug ss in
      if transcriber s = None then ss
      else if targetEditor s = None then ss
      else ss\<lparr>plug := s\<lparr>processingCount := processingCount s + 1\<rparr>,
              inFlight := inFlight ss @ [chunkNum]\<rparr>)"

text \<open>
  The rest of \<open>transcribeAudio\<close> once the awaited work has settled: the end of the
  \<open>try\<close> block or the \<open>catch\<close> block, then \<open>finally\<close>. It reads
  \<open>this.pendingResults\<close> and \<open>this.nextInsertChunk\<close> as they are at that moment.
\<close>

definition transcribeAudio_settle :: "nat \<Rightarrow> transcription \<Rightarrow> plugin \<Rightarrow> plugin" where
  "transcribeAudio_settle chunkNum outcome s =
     (let s1 = (case outcome of
                  Transcribed r \<Rightarrow>
                    submitResult chunkNum
                      (case r of None \<Rightarrow> [] | Some t \<Rightarrow> if t = [] then [] else trim t) s
                | Threw \<Rightarrow> s)
      in s1\<lparr>processingCount := processingCount s1 - 1\<rparr>)"

text \<open>\<open>recorder.onstop\<close> of the recorder created for chunk \<open>chunkNum\<close>.\<close>

definition recorder_onstop :: "bool \<Rightarrow> nat \<Rightarrow> session \<Rightarrow> session" where
  "recorder_onstop hasAudio chunkNum ss =
     (let ss1 = (if hasAudio then transcribeAudio_begin chunkNum ss else ss);
          s = plug ss1
      in if isStopping s then ss1\<lparr>plug := s\<lparr>isStopping := False, mediaStream := False\<rparr>\<rparr>
         else if isRecording s \<and> mediaStream s then recordChunk ss1
         else ss1)"

definition stopRecording :: "plugin \<Rightarrow> plugin" where
  "stopRecording s =
     (if \<not> isRecording s then s else s\<lparr>isRecording := False, isStopping := True\<rparr>)"

text \<open>
  \<open>startRecording\<close> from the point where the microphone has been granted: the counters
  are reset, a new map is created and the first chunk starts. (\<open>targetEditor\<close> was set
  before the awaits.) Whatever the runtime still holds stays as it is.
\<close>

definition startRecording_granted :: "session \<Rightarrow> session" where
  "startRecording_granted ss =
     recordChunk
       (ss\<lparr>plug := (plug ss)\<lparr>mediaStream := True, isRecording := True, chunkNumber := 0,
                       nextInsertChunk := 1, pendingResults := []\<rparr>\<rparr>)"

text \<open>
  What can happen while a recording runs: a recorder stops (with or without audio), a
  suspended \<open>transcribeAudio\<close> call resumes with the outcome of its awaited work, the
  user stops the recording. An event of a callback the runtime does not hold cannot
  happen.
\<close>

datatype event = RecorderStopped nat bool | TranscriptionSettled nat transcription | StopRequested

fun step :: "event \<Rightarrow> session \<Rightarrow> session option" where
  "step (RecorderStopped c hasAudio) ss =
     (if c \<in> set (recorders ss)
      then Some (recorder_onstop hasAudio c (ss\<lparr>recorders := remove1 c (recorders ss)\<rparr>))
      else None)"
| "step (TranscriptionSettled k outcome) ss =
     (if k \<in> set (inFlight ss)
      then Some (ss\<lparr>plug := transcribeAudio_settle k outcome (plug ss),
                    inFlight := remove1 k (inFlight ss)\<rparr>)
      else None)"
| "step StopRequested ss = Some (ss\<lparr>plug := stopRecording (plug ss)\<rparr>)"

fun run :: "event list \<Rightarrow> session \<Rightarrow> session option" where
  "run [] ss = Some ss"
| "run (e # es) ss = (case step e ss of None \<Rightarrow> None | Some ss' \<Rightarrow> run es ss')"

text \<open>The texts the editor has been asked to insert, in call order.\<close>

definition inserted :: "plugin \<Rightarrow> string list" where
  "inserted s = (case targetEditor s of None \<Rightarrow> [] | Some e \<Rightarrow> map fst (replaceRange_calls e))"

text \<open>
  A plugin as \<open>startRecording\<close> leaves it just before the microphone is granted for the
  first time: the model is loaded, the editor of the active note is the target, nothing
  is recorded yet and the runtime holds no callback.
\<close>

definition ready_plugin :: plugin where
  "ready_plugin =
     \<lparr>transcriber = Some DesktopEngine, isModelLoading = False, isRecording = False,
      mediaStream = False,
      targetEditor = Some \<lparr>cursor = \<lparr>line = 0, ch = 0\<rparr>, replaceRange_calls = []\<rparr>,
      processingCount = 0, chunkNumber = 0, isStopping = False, nextInsertChunk = 1,
      pendingResults = []\<rparr>"

definition idle_session :: session where
  "idle_session = \<lparr>plug = ready_plugin, recorders = [], inFlight = []\<rparr>"

subsection \<open>The content filter as the specification words it\<close>

text \<open>
  The specification drops a text that is empty, that equals the filler token \<open>you\<close>, or
  that is entirely wrapped in square brackets or in parentheses.
\<close>

definition wrappedIn :: "char \<Rightarrow> char \<Rightarrow> string \<Rightarrow> bool" where
  "wrappedIn l r text = (\<exists>body. text = l # body @ [r])"

definition spec_dropped :: "string \<Rightarrow> bool" where
  "spec_dropped text =
     (text = [] \<or> text = ''you'' \<or> wrappedIn CHR ''['' CHR '']'' text
      \<or> wrappedIn CHR ''('' CHR '')'' text)"

text \<open>
  The specification's sink operation for a surviving text: insert the text and one
  trailing space at the current cursor, then advance the cursor by the inserted length.
\<close>

definition spec_insertAt :: "editor \<Rightarrow> string \<Rightarrow> editor" where
  "spec_insertAt e text =
     e\<lparr>replaceRange_calls := replaceRange_calls e @ [(text @ '' '', cursor e)],
       cursor := \<lparr>line = line (cursor e), ch = ch (cursor e) + length (text @ '' '')\<rparr>\<rparr>"

text \<open>Five results waiting in the map, stored out of order, for chunks 1 to 5.\<close>

definition filter_example :: plugin where
  "filter_example =
     ready_plugin\<lparr>pendingResults :=
       [(3, ''[BLANK_AUDIO]''), (1, []), (5, ''(silence)''), (2, ''you''), (4, ''hello world'')]\<rparr>"

text \<open>A whole series of submissions, in the order given.\<close>

definition submitAll :: "(nat \<times> string) list \<Rightarrow> plugin \<Rightarrow> plugin" where
  "submitAll subs s = foldl (\<lambda>s (chunkNum, text). submitResult chunkNum text s) s subs"

section \<open>The states of a recording session\<close>

text \<open>
  What holds of every state of a recording that started with no callback of an earlier
  recording left: pending entries and suspended transcriptions carry chunk numbers from
  \<open>nextInsertChunk\<close> to \<open>chunkNumber\<close>, no chunk is both pending and still being
  transcribed, and the one recorder that is capturing has the newest number, not yet
  used anywhere else.
\<close>

definition pendingKeys :: "plugin \<Rightarrow> nat set" where
  "pendingKeys s = fst ` set (pendingResults s)"

definition session_inv :: "session \<Rightarrow> bool" where
  "session_inv ss =
     (nextInsertChunk (plug ss) \<le> chunkNumber (plug ss) + 1
      \<and> (\<forall>k\<in>pendingKeys (plug ss). nextInsertChunk (plug ss) \<le> k \<and> k \<le> chunkNumber (plug ss))
      \<and> distinct (inFlight ss)
      \<and> (\<forall>k\<in>set (inFlight ss). nextInsertChunk (plug ss) \<le> k \<and> k \<le> chunkNumber (plug ss)
             \<and> k \<notin> pendingKeys (plug ss))
      \<and> length (recorders ss) \<le> 1
      \<and> (\<forall>c\<in>set (recorders ss).
             c = chunkNumber (plug ss) \<and> nextInsertChunk (plug ss) \<le> c
             \<and> c \<notin> set (inFlight ss) \<and> c \<notin> pendingKeys (plug ss)))"

text \<open>
  A session is blocked at chunk \<open>k\<close> when the sequencer waits for \<open>k\<close> and \<open>k\<close> can no
  longer arrive: it is not pending, not being transcribed and not being recorded.
\<close>

definition blocked_at :: "nat \<Rightarrow> session \<Rightarrow> bool" where
  "blocked_at k ss =
     (nextInsertChunk (plug ss) = k \<and> map_of (pendingResults (plug ss)) k = None
      \<and> k \<notin> set (inFlight ss) \<and> k \<le> chunkNumber (plug ss) \<and> k \<notin> set (recorders ss))"

definition blocked_session :: session where
  "blocked_session =
     \<lparr>plug = ready_plugin\<lparr>isRecording := True, mediaStream := True, chunkNumber := 4,
             nextInsertChunk := 2, pendingResults := [(3, ''three'')],
             targetEditor := Some \<lparr>cursor = \<lparr>line = 0, ch = 4\<rparr>,
                replaceRange_calls = [(''one '', \<lparr>line = 0, ch = 0\<rparr>)]\<rparr>\<rparr>,
      recorders = [4], inFlight = []\<rparr>"

text \<open>
  A first recording, stopped while the transcription of its chunk 1 is still running
  (its chunk 2 had no audio), and a second recording started after it: the second
  recording's chunk 1 is transcribed first, then the call of the first recording resumes.
\<close>

definition stopped_session :: session where
  "stopped_session =
     \<lparr>plug = ready_plugin\<lparr>processingCount := 1, chunkNumber := 2\<rparr>,
      recorders = [], inFlight = [1]\<rparr>"

definition overtaken_session :: session where
  "overtaken_session =
     \<lparr>plug = ready_plugin\<lparr>isRecording := True, mediaStream := True, chunkNumber := 2,
             nextInsertChunk := 2, pendingResults := [(1, ''old'')],
             targetEditor := Some \<lparr>cursor = \<lparr>line = 0, ch = 4\<rparr>,
                replaceRange_calls = [(''new '', \<lparr>line = 0, ch = 0\<rparr>)]\<rparr>\<rparr>,
      recorders = [2], inFlight = []\<rparr>"

section \<open>Resampling (\<open>resampleAudio\<close>)\<close>

datatype js_error = RangeError | TypeError | Error string

subsection \<open>JavaScript numbers\<close>

text \<open>
  A Number is an IEEE 754 binary64 value: a finite double, given by the rational it
  denotes (\<open>Finite 0\<close> is \<open>+0\<close>), negative zero, an infinity, or NaN.
\<close>

datatype number = Finite rat | NegZero | PosInfinity | NegInfinity | NaN

text \<open>
  The exponent of a positive rational \<open>x\<close>: the integer \<open>e\<close> with
  \<open>2 ^ e \<le> x < 2 ^ (e + 1)\<close>, computed from the bit lengths of numerator and
  denominator.
\<close>

definition exponent_of :: "rat \<Rightarrow> int" where
  "exponent_of x =
     (let (a, b) = quotient_of x; d = bitlen a - bitlen b
      in if 2 powi d \<le> x then d else d - 1)"

definition round_half_even :: "rat \<Rightarrow> int" where
  "round_half_even x =
     (let f = \<lfloor>x\<rfloor>; d = x - of_int f
      in if d < 1 / 2 then f else if 1 / 2 < d then f + 1 else if even f then f else f + 1)"

text \<open>
  The Number value for an exact result \<open>x\<close>: the nearest double, ties to the even
  significand. A double has 53 significant bits; below \<open>2 ^ - 1022\<close> the spacing stays
  \<open>2 ^ - 1074\<close> (subnormal numbers); a result that rounds to \<open>2 ^ 1024\<close> or more is
  an infinity; a nonzero result that rounds to zero keeps its sign.
\<close>

definition round_to_double :: "rat \<Rightarrow> number" where
  "round_to_double x =
     (if x = 0 then Finite 0
      else
        (let e = max (exponent_of \<bar>x\<bar>) (- 1022);
             ulp = 2 powi (e - 52);
             m = round_half_even (\<bar>x\<bar> / ulp);
             y = of_int m * ulp
         in if 2 powi 1024 \<le> y then (if x < 0 then NegInfinity else PosInfinity)
            else if m = 0 then (if x < 0 then NegZero else Finite 0)
            else Finite (if x < 0 then - y else y)))"

definition negative :: "number \<Rightarrow> bool" where
  "negative v = (case v of Finite x \<Rightarrow> x < 0 | NegZero \<Rightarrow> True | NegInfinity \<Rightarrow> True | _ \<Rightarrow> False)"

definition is_zero :: "number \<Rightarrow> bool" where
  "is_zero v = (v = Finite 0 \<or> v = NegZero)"

definition is_infinite :: "number \<Rightarrow> bool" where
  "is_infinite v = (v = PosInfinity \<or> v = NegInfinity)"

definition value_of :: "number \<Rightarrow> rat" where
  "value_of v = (case v of Finite x \<Rightarrow> x | _ \<Rightarrow> 0)"

definition signed_zero :: "bool \<Rightarrow> number" where
  "signed_zero neg = (if neg then NegZero else Finite 0)"

definition signed_infinity :: "bool \<Rightarrow> number" where
  "signed_infinity neg = (if neg then NegInfinity else PosInfinity)"

text \<open>
  The operators \<open>/\<close> and \<open>*\<close> on Numbers: NaN is contagious; the quotient of two
  infinities or of two zeros and the product of an infinity and a zero are NaN; otherwise
  an infinite or zero operand decides the result, with the sign as the product of the
  signs; otherwise the exact result is rounded.
\<close>

definition number_divide :: "number \<Rightarrow> number \<Rightarrow> number" where
  "number_divide a b =
     (if a = NaN \<or> b = NaN then NaN
      else if is_infinite a then
        (if is_infinite b then NaN else signed_infinity (negative a \<noteq> negative b))
      else if is_infinite b then signed_zero (negative a \<noteq> negative b)
      else if is_zero b then
        (if is_zero a then NaN else signed_infinity (negative a \<noteq> negative b))
      else if is_zero a then signed_zero (negative a \<noteq> negative b)
      else round_to_double (value_of a / value_of b))"

definition number_multiply :: "number \<Rightarrow> number \<Rightarrow> number" where
  "number_multiply a b =
     (if a = NaN \<or> b = NaN then NaN
      else if is_infinite a \<or> is_infinite b then
        (if is_zero a \<or> is_zero b then NaN else signed_infinity (negative a \<noteq> negative b))
      else if is_zero a \<or> is_zero b then signed_zero (negative a \<noteq> negative b)
      else round_to_double (value_of a * value_of b))"

text \<open>
  \<open>Math.round\<close> gives the nearest integer, the larger one at a tie, and \<open>- 0\<close> for
  arguments from \<open>- 0.5\<close> up to but excluding \<open>0\<close>; \<open>Math.floor\<close> gives the largest
  integer not above the argument. Both return NaN, the infinities and the zeros as they
  are, and both results are doubles whenever the argument is one.
\<close>

definition Math_round :: "number \<Rightarrow> number" where
  "Math_round v =
     (case v of
        Finite x \<Rightarrow> if x < 0 \<and> - 1 / 2 \<le> x then NegZero else Finite (of_int \<lfloor>x + 1 / 2\<rfloor>)
      | _ \<Rightarrow> v)"

definition Math_floor :: "number \<Rightarrow> number" where
  "Math_floor v = (case v of Finite x \<Rightarrow> Finite (of_int \<lfloor>x\<rfloor>) | _ \<Rightarrow> v)"

subsection \<open>Typed arrays\<close>

text \<open>
  \<open>new Float32Array(len)\<close> converts \<open>len\<close> to an index: NaN and the zeros give 0, a
  fraction is cut off towards zero, and a length that is negative or above
  \<open>2 ^ 53 - 1\<close> is a \<open>RangeError\<close>. So is a length the engine cannot allocate:
  \<open>limit\<close> is the largest length it can, at that moment. The result here is the length
  of the new array.
\<close>

definition new_Float32Array :: "nat \<Rightarrow> number \<Rightarrow> js_error + nat" where
  "new_Float32Array limit len =
     (case len of
        NaN \<Rightarrow> Inr 0
      | NegZero \<Rightarrow> Inr 0
      | PosInfinity \<Rightarrow> Inl RangeError
      | NegInfinity \<Rightarrow> Inl RangeError
      | Finite x \<Rightarrow>
          (let k = (if 0 \<le> x then \<lfloor>x\<rfloor> else \<lceil>x\<rceil>)
           in if k < 0 \<or> 2 ^ 53 - 1 < k \<or> int limit < k then Inl RangeError
              else Inr (nat k)))"

text \<open>
  \<open>a[index]\<close> on a typed array: the element when \<open>index\<close> is an integer from 0 to
  \<open>a.length - 1\<close> (\<open>- 0\<close> names element 0), otherwise \<open>undefined\<close>, which is \<open>None\<close>
  here; stored into a \<open>Float32Array\<close> it becomes NaN.
\<close>

definition typedArrayGet :: "'a list \<Rightarrow> number \<Rightarrow> 'a option" where
  "typedArrayGet a index =
     (case index of
        Finite x \<Rightarrow>
          if of_int \<lfloor>x\<rfloor> = x \<and> 0 \<le> x \<and> x < of_nat (length a) then Some (a ! nat \<lfloor>x\<rfloor>) else None
      | NegZero \<Rightarrow> if a = [] then None else Some (a ! 0)
      | _ \<Rightarrow> None)"

subsection \<open>\<open>resampleAudio\<close> of the plugin (src/main.js)\<close>

text \<open>
  The samples are only copied, so their type is left open. The loop runs once for
  every element of the new array, since \<open>i < newLength\<close> is false at once when
  \<open>newLength\<close> is NaN or a zero.
\<close>

definition resampleAudio ::
    "nat \<Rightarrow> 'a list \<Rightarrow> number \<Rightarrow> number \<Rightarrow> js_error + 'a option list" where
  "resampleAudio limit audioData fromSampleRate toSampleRate =
     (let ratio = number_divide fromSampleRate toSampleRate;
          newLength = Math_round (number_divide (Finite (of_nat (length audioData))) ratio)
      in case new_Float32Array limit newLength of
           Inl e \<Rightarrow> Inl e
         | Inr n \<Rightarrow>
             Inr (map (\<lambda>i. typedArrayGet audioData
                              (Math_floor (number_multiply (Finite (of_nat i)) ratio)))
                    [0 ..< n]))"

subsection \<open>Resampling as the specification words it\<close>

text \<open>
  The length the specification gives, \<open>round(n * toSampleRate / fromSampleRate)\<close> on
  the exact quotient, halves rounded up as \<open>Math.round\<close> does.
\<close>

definition spec_length :: "nat \<Rightarrow> rat \<Rightarrow> rat \<Rightarrow> int" where
  "spec_length n fromSampleRate toSampleRate =
     \<lfloor>of_nat n * toSampleRate / fromSampleRate + 1 / 2\<rfloor>"


section \<open>Loading the model (\<open>loadModel\<close>)\<close>

text \<open>The plugin object as its field initialisers create it.\<close>

definition fresh_plugin :: plugin where
  "fresh_plugin =
     \<lparr>transcriber = None, isModelLoading = False, isRecording = False, mediaStream = False,
      targetEditor = None, processingCount = 0, chunkNumber = 0, isStopping = False,
      nextInsertChunk = 1, pendingResults = []\<rparr>"

text \<open>
  \<open>loadModel\<close> is an async function: it runs up to an \<open>await\<close>, and resumes when the
  awaited promise settles. On the desktop it awaits \<open>desktopTranscriber.initialize\<close>; on
  mobile it awaits \<open>isModelCached\<close>, then \<open>pipeline\<close>. A loader is the plugin object
  together with the \<open>loadModel\<close> calls suspended at an await (by caller), the values
  returned to callers so far, and the number of download/load sequences started
  (calls of \<open>initialize\<close> or \<open>pipeline\<close>).
\<close>

datatype await_point = AwaitInitialize | AwaitIsModelCached | AwaitPipeline

datatype settled = Resolved | Rejected string

record loader =
  owner :: plugin
  loading :: "(nat \<times> await_point) list"
  returned :: "(nat \<times> bool) list"
  loadsStarted :: nat

definition new_loader :: "plugin \<Rightarrow> loader" where
  "new_loader s = \<lparr>owner = s, loading = [], returned = [], loadsStarted = 0\<rparr>"

text \<open>\<open>loadModel\<close> from its entry to its first \<open>await\<close> or \<open>return\<close>.\<close>

definition loadModel_call :: "bool \<Rightarrow> nat \<Rightarrow> loader \<Rightarrow> loader" where
  "loadModel_call isMobilePlatform caller st =
     (if transcriber (owner st) \<noteq> None then st\<lparr>returned := returned st @ [(caller, True)]\<rparr>
      else if isModelLoading (owner st) then st\<lparr>returned := returned st @ [(caller, False)]\<rparr>
      else if \<not> isMobilePlatform then
        st\<lparr>owner := (owner st)\<lparr>isModelLoading := True\<rparr>,
           loading := loading st @ [(caller, AwaitInitialize)],
           loadsStarted := loadsStarted st + 1\<rparr>
      else
        st\<lparr>owner := (owner st)\<lparr>isModelLoading := True\<rparr>,
           loading := loading st @ [(caller, AwaitIsModelCached)]\<rparr>)"

text \<open>The \<open>catch\<close> block of \<open>loadModel\<close>.\<close>

definition loadModel_catch :: "nat \<Rightarrow> loader \<Rightarrow> loader" where
  "loadModel_catch caller st =
     st\<lparr>owner := (owner st)\<lparr>isModelLoading := False\<rparr>,
        loading := AList.delete caller (loading st),
        returned := returned st @ [(caller, False)]\<rparr>"

text \<open>\<open>loadModel\<close> from the await it is suspended at to the next await or \<open>return\<close>.\<close>

fun loadModel_resume :: "string \<Rightarrow> nat \<Rightarrow> await_point \<Rightarrow> settled \<Rightarrow> loader \<Rightarrow> loader" where
  "loadModel_resume modelId caller AwaitInitialize Resolved st =
     st\<lparr>owner := (owner st)\<lparr>transcriber := Some DesktopEngine, isModelLoading := False\<rparr>,
        loading := AList.delete caller (loading st),
        returned := returned st @ [(caller, True)]\<rparr>"
| "loadModel_resume modelId caller AwaitIsModelCached Resolved st =
     st\<lparr>loading := AList.update caller AwaitPipeline (loading st),
        loadsStarted := loadsStarted st + 1\<rparr>"
| "loadModel_resume modelId caller AwaitPipeline Resolved st =
     st\<lparr>owner := (owner st)\<lparr>transcriber := Some (MobilePipeline modelId),
                            isModelLoading := False\<rparr>,
        loading := AList.delete caller (loading st),
        returned := returned st @ [(caller, True)]\<rparr>"
| "loadModel_resume modelId caller pt (Rejected message) st = loadModel_catch caller st"

text \<open>
  Besides calls and settled promises, the settings tab and \<open>onunload\<close> reset
  \<open>transcriber\<close> to \<open>null\<close>.
\<close>

datatype load_event = LoadModelCalled nat | LoadSettled nat settled | TranscriberCleared

fun load_step :: "bool \<Rightarrow> string \<Rightarrow> load_event \<Rightarrow> loader \<Rightarrow> loader option" where
  "load_step isMobilePlatform modelId (LoadModelCalled caller) st =
     Some (loadModel_call isMobilePlatform caller st)"
| "load_step isMobilePlatform modelId (LoadSettled caller outcome) st =
     (case map_of (loading st) caller of
        None \<Rightarrow> None
      | Some pt \<Rightarrow> Some (loadModel_resume modelId caller pt outcome st))"
| "load_step isMobilePlatform modelId TranscriberCleared st =
     Some (st\<lparr>owner := (owner st)\<lparr>transcriber := None\<rparr>\<rparr>)"

fun load_run :: "bool \<Rightarrow> string \<Rightarrow> load_event list \<Rightarrow> loader \<Rightarrow> loader option" where
  "load_run isMobilePlatform modelId [] st = Some st"
| "load_run isMobilePlatform modelId (e # es) st =
     (case load_step isMobilePlatform modelId e st of
        None \<Rightarrow> None
      | Some st' \<Rightarrow> load_run isMobilePlatform modelId es st')"

definition single_flight :: "loader \<Rightarrow> bool" where
  "single_flight st =
     (length (loading st) \<le> 1
      \<and> (isModelLoading (owner st) \<longleftrightarrow> loading st \<noteq> [])
      \<and> (loading st \<noteq> [] \<longrightarrow> transcriber (owner st) = None))"

definition loading_desktop :: loader where
  "loading_desktop =
     \<lparr>owner = fresh_plugin\<lparr>isModelLoading := True\<rparr>, loading = [(1, AwaitInitialize)],
      returned = [], loadsStarted = 1\<rparr>"

section \<open>Writing the WAV file (src/desktop-transcriber.js, \<open>writeWavFile\<close>)\<close>

text \<open>
  A Node \<open>Buffer\<close> is a list of bytes. \<open>Buffer.alloc\<close> gives zero bytes (no size limit
  is modelled). \<open>buf.write\<close> stores the bytes of an ASCII string and silently drops
  what does not fit, as a list update outside the list does. The integer writers throw
  a \<open>RangeError\<close> when the value is outside the range of the field or the field does
  not fit at the offset; they store the low byte first.
\<close>

type_synonym byte = "8 word"

definition byte_of_char :: "char \<Rightarrow> byte" where
  "byte_of_char c = of_nat (of_char c)"

definition buffer_alloc :: "nat \<Rightarrow> byte list" where
  "buffer_alloc n = replicate n 0"

definition buffer_write :: "string \<Rightarrow> nat \<Rightarrow> byte list \<Rightarrow> js_error + byte list" where
  "buffer_write str offset buf =
     (if length buf < offset then Inl RangeError
      else Inr (foldl (\<lambda>b (i, c). b[i := byte_of_char c]) buf
                  (zip [offset ..< offset + length str] str)))"

definition writeUInt32LE :: "nat \<Rightarrow> nat \<Rightarrow> byte list \<Rightarrow> js_error + byte list" where
  "writeUInt32LE v offset buf =
     (if 2 ^ 32 \<le> v \<or> length buf < offset + 4 then Inl RangeError
      else Inr (buf[offset := of_nat v, offset + 1 := of_nat (v div 2 ^ 8),
                    offset + 2 := of_nat (v div 2 ^ 16), offset + 3 := of_nat (v div 2 ^ 24)]))"

definition writeUInt16LE :: "nat \<Rightarrow> nat \<Rightarrow> byte list \<Rightarrow> js_error + byte list" where
  "writeUInt16LE v offset buf =
     (if 2 ^ 16 \<le> v \<or> length buf < offset + 2 then Inl RangeError
      else Inr (buf[offset := of_nat v, offset + 1 := of_nat (v div 2 ^ 8)]))"

definition writeInt16LE :: "int \<Rightarrow> nat \<Rightarrow> byte list \<Rightarrow> js_error + byte list" where
  "writeInt16LE v offset buf =
     (if v < - (2 ^ 15) \<or> 2 ^ 15 \<le> v \<or> length buf < offset + 2 then Inl RangeError
      else Inr (buf[offset := of_int v, offset + 1 := of_int (v div 2 ^ 8)]))"

text \<open>Reading a field back, as \<open>buf.readUInt32LE\<close>, \<open>readUInt16LE\<close> and \<open>readInt16LE\<close> do.\<close>

definition readUInt32LE :: "byte list \<Rightarrow> nat \<Rightarrow> nat" where
  "readUInt32LE buf offset =
     unat (buf ! offset) + 2 ^ 8 * unat (buf ! (offset + 1))
     + 2 ^ 16 * unat (buf ! (offset + 2)) + 2 ^ 24 * unat (buf ! (offset + 3))"

definition readUInt16LE :: "byte list \<Rightarrow> nat \<Rightarrow> nat" where
  "readUInt16LE buf offset = unat (buf ! offset) + 2 ^ 8 * unat (buf ! (offset + 1))"

definition readInt16LE :: "byte list \<Rightarrow> nat \<Rightarrow> int" where
  "readInt16LE buf offset =
     (let u = uint (buf ! offset) + 2 ^ 8 * uint (buf ! (offset + 1))
      in if 2 ^ 15 \<le> u then u - 2 ^ 16 else u)"

text \<open>A sequence of writes on the same buffer; the first exception ends it.\<close>

definition run_writes ::
    "(byte list \<Rightarrow> js_error + byte list) list \<Rightarrow> byte list \<Rightarrow> js_error + byte list" where
  "run_writes ops buf =
     foldl (\<lambda>r op. case r of Inl e \<Rightarrow> Inl e | Inr b \<Rightarrow> op b) (Inr buf) ops"

text \<open>
  The two lines of the loop body that compute \<open>intSample\<close>:
  \<^verbatim>\<open>Math.round(Math.max(-1, Math.min(1, audioData[i])) * 32767)\<close>.
\<close>

definition quantise :: "rat \<Rightarrow> int" where
  "quantise x = (let sample = max (- 1) (min 1 x) in round (sample * 32767))"

text \<open>The \<open>for\<close> loop over the samples, from index \<open>i\<close> on.\<close>

function writeSamples :: "rat list \<Rightarrow> nat \<Rightarrow> byte list \<Rightarrow> js_error + byte list" where
  "writeSamples audioData i buf =
     (if i < length audioData then
        (case writeInt16LE (quantise (audioData ! i)) (44 + i * 2) buf of
           Inl e \<Rightarrow> Inl e
         | Inr buf' \<Rightarrow> writeSamples audioData (i + 1) buf')
      else Inr buf)"
  by pat_completeness auto
termination
  by (relation "measure (\<lambda>(audioData, i, buf). length audioData - i)") auto

text \<open>
  \<open>writeWavFile\<close> up to the buffer it hands to \<open>fs.writeFileSync\<close>. The sample rate
  is a whole number of hertz.
\<close>

definition writeWavFile :: "rat list \<Rightarrow> nat \<Rightarrow> js_error + byte list" where
  "writeWavFile audioData sampleRate =
     (let numChannels = 1;
          bitsPerSample = 16;
          byteRate = sampleRate * numChannels * bitsPerSample div 8;
          blockAlign = numChannels * bitsPerSample div 8;
          dataSize = length audioData * 2;
          headerSize = 44;
          fileSize = headerSize + dataSize - 8;
          buffer = buffer_alloc (headerSize + dataSize)
      in case run_writes
                [buffer_write ''RIFF'' 0,
                 writeUInt32LE fileSize 4,
                 buffer_write ''WAVE'' 8,
                 buffer_write ''fmt '' 12,
                 writeUInt32LE 16 16,
                 writeUInt16LE 1 20,
                 writeUInt16LE numChannels 22,
                 writeUInt32LE sampleRate 24,
                 writeUInt32LE byteRate 28,
                 writeUInt16LE blockAlign 32,
                 writeUInt16LE bitsPerSample 34,
                 buffer_write ''data'' 36,
                 writeUInt32LE dataSize 40] buffer of
           Inl e \<Rightarrow> Inl e
         | Inr header \<Rightarrow> writeSamples audioData 0 header)"

text \<open>The thirteen header writes of \<open>writeWavFile\<close>, for \<open>n\<close> samples.\<close>

definition header_writes :: "nat \<Rightarrow> nat \<Rightarrow> (byte list \<Rightarrow> js_error + byte list) list" where
  "header_writes n sampleRate =
                [buffer_write ''RIFF'' 0,
                 writeUInt32LE (44 + n * 2 - 8) 4,
                 buffer_write ''WAVE'' 8,
                 buffer_write ''fmt '' 12,
                 writeUInt32LE 16 16,
                 writeUInt16LE 1 20,
                 writeUInt16LE 1 22,
                 writeUInt32LE sampleRate 24,
                 writeUInt32LE (sampleRate * 1 * 16 div 8) 28,
                 writeUInt16LE (1 * 16 div 8) 32,
                 writeUInt16LE 16 34,
                 buffer_write ''data'' 36,
                 writeUInt32LE (n * 2) 40]"

section \<open>Provisioning the desktop engine (src/desktop-transcriber.js)\<close>

text \<open>
  What \<open>fs.readdirSync\<close> returns for the \<open>bin\<close> directory, recursively: files,
  directories with their entries, and entries that are neither. The file-system calls
  themselves (\<open>existsSync\<close>, \<open>readdirSync\<close>, \<open>mkdirSync\<close>, \<open>chmodSync\<close>) are taken to
  succeed.
\<close>

datatype entry = File string | Dir string "entry list" | Other string

definition path_join :: "string \<Rightarrow> string \<Rightarrow> string" where
  "path_join dir name = dir @ ''/'' @ name"

fun findExecutable :: "string \<Rightarrow> entry list \<Rightarrow> string list \<Rightarrow> string option" where
  "findExecutable dir [] execNames = None"
| "findExecutable dir (Dir name sub # entries) execNames =
     (case findExecutable (path_join dir name) sub execNames of
        Some found \<Rightarrow> Some found
      | None \<Rightarrow> findExecutable dir entries execNames)"
| "findExecutable dir (File name # entries) execNames =
     (if name \<in> set execNames then Some (path_join dir name)
      else findExecutable dir entries execNames)"
| "findExecutable dir (Other name # entries) execNames = findExecutable dir entries execNames"

record platformInfo =
  platform :: string
  arch :: string
  execNames :: "string list"
  archivePattern :: string

definition getPlatformInfo :: "string \<Rightarrow> string \<Rightarrow> platformInfo" where
  "getPlatformInfo processPlatform processArch =
     (if processPlatform = ''win32'' then
        \<lparr>platform = processPlatform, arch = processArch, execNames = [''whisper-cli.exe''],
         archivePattern = ''whisper-blas-bin-x64.zip''\<rparr>
      else if processPlatform = ''darwin'' then
        \<lparr>platform = processPlatform, arch = processArch, execNames = [''whisper-cli''],
         archivePattern = ''whisper-bin-'' @ (if processArch = ''arm64'' then ''arm64'' else ''x64'')
                           @ ''-apple-darwin.zip''\<rparr>
      else if processPlatform = ''linux'' then
        \<lparr>platform = processPlatform, arch = processArch, execNames = [''whisper-cli''],
         archivePattern = ''whisper-bin-x86_64-linux-gnu.zip''\<rparr>
      else
        \<lparr>platform = processPlatform, arch = processArch, execNames = [''whisper-cli''],
         archivePattern = []\<rparr>)"

definition MODEL_BASE_URL :: string where
  "MODEL_BASE_URL = ''https://huggingface.co/ggerganov/whisper.cpp/resolve/main''"

definition MODEL_MAP :: "(string \<times> string) list" where
  "MODEL_MAP =
     [(''Xenova/whisper-tiny.en'', ''ggml-tiny.en.bin''),
      (''Xenova/whisper-base.en'', ''ggml-base.en.bin''),
      (''Xenova/whisper-small.en'', ''ggml-small.en.bin''),
      (''Xenova/whisper-medium.en'', ''ggml-medium.en.bin''),
      (''Xenova/whisper-tiny'', ''ggml-tiny.bin''),
      (''Xenova/whisper-base'', ''ggml-base.bin''),
      (''Xenova/whisper-small'', ''ggml-small.bin''),
      (''Xenova/whisper-medium'', ''ggml-medium.bin'')]"

text \<open>
  \<open>MODEL_MAP\<close> is an object literal, so \<open>MODEL_MAP[modelId]\<close> finds, besides the eight
  keys of the literal, the members every object inherits from \<open>Object.prototype\<close>
  (taken as the language defines it, with nothing added by other code). Those are
  functions, or the prototype object itself for \<open>__proto__\<close>: truthy values that are not
  strings.
\<close>

definition Object_prototype_members :: "string list" where
  "Object_prototype_members =
     [''constructor'', ''__defineGetter__'', ''__defineSetter__'', ''hasOwnProperty'',
      ''__lookupGetter__'', ''__lookupSetter__'', ''isPrototypeOf'', ''propertyIsEnumerable'',
      ''toString'', ''valueOf'', ''__proto__'', ''toLocaleString'']"

text \<open>
  \<^verbatim>\<open>MODEL_MAP[modelId] || 'ggml-base.en.bin'\<close>: the name from the literal, the default
  when the lookup gives \<open>undefined\<close>, and \<open>None\<close> when it gives an inherited member, which
  is not a string; \<open>path.join\<close> then throws a \<open>TypeError\<close>.
\<close>

definition modelFileNameOf :: "string \<Rightarrow> string option" where
  "modelFileNameOf modelId =
     (case map_of MODEL_MAP modelId of
        Some name \<Rightarrow> Some name
      | None \<Rightarrow> if modelId \<in> set Object_prototype_members then None
                else Some ''ggml-base.en.bin'')"

text \<open>
  The network activity initialization can cause: the query for the latest release and
  file downloads (URL and destination).
\<close>

datatype request = GetLatestRelease | DownloadFile string string

text \<open>
  What the surroundings answer: the host platform, the plugin directory, the outcome of
  the release query (an error, or the status code and the assets' names and download
  URLs), of each download, of the extraction (the entries of \<open>bin\<close> afterwards), and
  whether deleting the archive fails.
\<close>

record environment =
  processPlatform :: string
  processArch :: string
  pluginDir :: string
  latestRelease :: "js_error + nat \<times> (string \<times> string) list"
  downloads :: "string \<Rightarrow> js_error + unit"
  unzip :: "entry list \<Rightarrow> js_error + entry list"
  zipUnlinkFails :: bool

text \<open>
  The state outside the transcriber object: the entries of \<open>bin\<close> and the file names in
  \<open>models\<close> (\<open>None\<close> while the directory does not exist), the requests sent so far and
  the statuses reported through the progress callback (the \<open>progress\<close> reports that
  count bytes during a download are left out).
\<close>

record world =
  binEntries :: "entry list option"
  modelFiles :: "string list option"
  requests :: "request list"
  progress :: "string list"

record desktopTranscriber =
  whisperPath :: "string option"
  modelPath :: "string option"
  initialized :: bool

definition ensureDir :: "'a list option \<Rightarrow> 'a list option" where
  "ensureDir dir = (case dir of None \<Rightarrow> Some [] | Some entries \<Rightarrow> Some entries)"

definition entriesOf :: "'a list option \<Rightarrow> 'a list" where
  "entriesOf dir = (case dir of None \<Rightarrow> [] | Some entries \<Rightarrow> entries)"

definition findInDir :: "string \<Rightarrow> entry list option \<Rightarrow> string list \<Rightarrow> string option" where
  "findInDir dir entries names =
     (case entries of None \<Rightarrow> None | Some es \<Rightarrow> findExecutable dir es names)"

definition getLatestReleaseUrl ::
    "environment \<Rightarrow> string \<Rightarrow> world \<Rightarrow> (js_error + string) \<times> world" where
  "getLatestReleaseUrl env pattern w =
     (let w1 = w\<lparr>requests := requests w @ [GetLatestRelease]\<rparr> in
      case latestRelease env of
        Inl e \<Rightarrow> (Inl e, w1)
      | Inr (status, assets) \<Rightarrow>
          if status \<noteq> 200 then (Inl (Error ''GitHub API returned an error status''), w1)
          else (case find (\<lambda>a. fst a = pattern) assets of
                  None \<Rightarrow> (Inl (Error ''Could not find the archive in release''), w1)
                | Some asset \<Rightarrow> (Inr (snd asset), w1)))"

definition downloadFile ::
    "environment \<Rightarrow> string \<Rightarrow> string \<Rightarrow> world \<Rightarrow> (js_error + unit) \<times> world" where
  "downloadFile env url destPath w =
     (downloads env url, w\<lparr>requests := requests w @ [DownloadFile url destPath]\<rparr>)"

definition downloadExecutable ::
    "environment \<Rightarrow> string \<Rightarrow> platformInfo \<Rightarrow> world \<Rightarrow> (js_error + unit) \<times> world" where
  "downloadExecutable env binDir info w =
     (case getLatestReleaseUrl env (archivePattern info) w of
        (Inl e, w1) \<Rightarrow> (Inl e, w1)
      | (Inr url, w1) \<Rightarrow>
          (case downloadFile env url (path_join binDir ''whisper.zip'') w1 of
             (Inl e, w2) \<Rightarrow> (Inl e, w2)
           | (Inr _, w2) \<Rightarrow>
               (let withZip = entriesOf (binEntries w2) @ [File ''whisper.zip''];
                    w3 = w2\<lparr>binEntries := Some withZip,
                            progress := progress w2 @ [''extracting'']\<rparr>
                in case unzip env withZip of
                     Inl e \<Rightarrow> (Inl e, w3)
                   | Inr extracted \<Rightarrow>
                       (Inr (),
                        w3\<lparr>binEntries :=
                             Some (if zipUnlinkFails env then extracted
                                   else filter (\<lambda>e. e \<noteq> File ''whisper.zip'') extracted)\<rparr>))))"

definition downloadModel ::
    "environment \<Rightarrow> string \<Rightarrow> string \<Rightarrow> world \<Rightarrow> (js_error + unit) \<times> world" where
  "downloadModel env modelFileName destPath w =
     (case downloadFile env (MODEL_BASE_URL @ ''/'' @ modelFileName) destPath w of
        (Inl e, w1) \<Rightarrow> (Inl e, w1)
      | (Inr _, w1) \<Rightarrow>
          (Inr (), w1\<lparr>modelFiles := Some (entriesOf (modelFiles w1) @ [modelFileName])\<rparr>))"

definition initialize ::
    "environment \<Rightarrow> string \<Rightarrow> desktopTranscriber \<times> world
       \<Rightarrow> (js_error + unit) \<times> desktopTranscriber \<times> world" where
  "initialize env modelId st =
     (let dt = fst st; w = snd st;
          binDir = path_join (pluginDir env) ''bin'';
          modelsDir = path_join (pluginDir env) ''models'';
          w1 = w\<lparr>binEntries := ensureDir (binEntries w), modelFiles := ensureDir (modelFiles w)\<rparr>;
          platformInfo = getPlatformInfo (processPlatform env) (processArch env);
          dt1 = dt\<lparr>whisperPath := findInDir binDir (binEntries w1) (execNames platformInfo)\<rparr>;
          located =
            (if whisperPath dt1 = None then
               (let w2 = w1\<lparr>progress := progress w1 @ [''downloading'']\<rparr> in
                case downloadExecutable env binDir platformInfo w2 of
                  (Inl e, w3) \<Rightarrow> (Inl e, dt1, w3)
                | (Inr _, w3) \<Rightarrow>
                    (let dt2 = dt1\<lparr>whisperPath :=
                                 findInDir binDir (binEntries w3) (execNames platformInfo)\<rparr>
                     in if whisperPath dt2 = None
                        then (Inl (Error ''Could not find whisper executable after extraction''),
                              dt2, w3)
                        else (Inr (), dt2, w3)))
             else (Inr (), dt1, w1))
      in case located of
           (Inl e, dt3, w4) \<Rightarrow> (Inl e, dt3, w4)
         | (Inr _, dt3, w4) \<Rightarrow>
             (case modelFileNameOf modelId of
                None \<Rightarrow> (Inl TypeError, dt3, w4)
              | Some modelFileName \<Rightarrow>
                  (let dt4 = dt3\<lparr>modelPath := Some (path_join modelsDir modelFileName)\<rparr>;
                       fetched =
                         (if modelFileName \<notin> set (entriesOf (modelFiles w4)) then
                            downloadModel env modelFileName (path_join modelsDir modelFileName)
                              (w4\<lparr>progress := progress w4 @ [''downloading'']\<rparr>)
                          else (Inr (), w4))
                   in case fetched of
                        (Inl e, w5) \<Rightarrow> (Inl e, dt4, w5)
                      | (Inr _, w5) \<Rightarrow>
                          (Inr (), dt4\<lparr>initialized := True\<rparr>,
                           w5\<lparr>progress := progress w5 @ [''ready'']\<rparr>))))"

text \<open>
  Both assets are on disk: the executable is found under \<open>bin\<close>, and \<open>modelId\<close> maps to a
  file name and that file exists in \<open>models\<close>.
\<close>

definition provisioned :: "environment \<Rightarrow> string \<Rightarrow> world \<Rightarrow> bool" where
  "provisioned env modelId w =
     (findInDir (path_join (pluginDir env) ''bin'') (binEntries w)
        (execNames (getPlatformInfo (processPlatform env) (processArch env))) \<noteq> None
      \<and> (case modelFileNameOf modelId of
           None \<Rightarrow> False
         | Some name \<Rightarrow> name \<in> set (entriesOf (modelFiles w))))"

text \<open>A Linux host with a working network, the same host without one, and a first run.\<close>

definition linux_online :: environment where
  "linux_online =
     \<lparr>processPlatform = ''linux'', processArch = ''x64'', pluginDir = ''vault/plugin'',
      latestRelease = Inr (200, [(''whisper-bin-x86_64-linux-gnu.zip'', ''https://example.org/w.zip'')]),
      downloads = (\<lambda>url. Inr ()),
      unzip = (\<lambda>entries. Inr (entries @ [Dir ''build'' [File ''whisper-cli'']])),
      zipUnlinkFails = False\<rparr>"

definition linux_offline :: environment where
  "linux_offline =
     linux_online\<lparr>latestRelease := Inl (Error ''network''),
                  downloads := (\<lambda>url. Inl (Error ''network''))\<rparr>"

definition new_transcriber :: desktopTranscriber where
  "new_transcriber = \<lparr>whisperPath = None, modelPath = None, initialized = False\<rparr>"

definition empty_world :: world where
  "empty_world = \<lparr>binEntries = None, modelFiles = None, requests = [], progress = []\<rparr>"

definition provisioned_world :: world where
  "provisioned_world =
     \<lparr>binEntries = Some [Dir ''build'' [File ''whisper-cli'']],
      modelFiles = Some [''ggml-base.en.bin''],
      requests =
        [GetLatestRelease,
         DownloadFile ''https://example.org/w.zip'' ''vault/plugin/bin/whisper.zip'',
         DownloadFile ''https://huggingface.co/ggerganov/whisper.cpp/resolve/main/ggml-base.en.bin''
           ''vault/plugin/models/ggml-base.en.bin''],
      progress = [''downloading'', ''extracting'', ''downloading'', ''ready'']\<rparr>"

definition ready_transcriber :: desktopTranscriber where
  "ready_transcriber =
     \<lparr>whisperPath = Some ''vault/plugin/bin/build/whisper-cli'',
      modelPath = Some ''vault/plugin/models/ggml-base.en.bin'', initialized = True\<rparr>"

section \<open>Transcribing with the desktop engine (\<open>DesktopTranscriber.transcribe\<close>)\<close>

text \<open>
  The machine holds the files of the temporary directory, the calls of
  \<open>fs.unlinkSync\<close>, the processes \<open>spawn\<close> has started (executable and argument
  array), and the log (each entry is the fixed text of the message; what the code appends
  to it is left out).
\<close>

record machine =
  tempFiles :: "(string \<times> byte list) list"
  unlinkCalls :: "string list"
  spawned :: "(string \<times> string option list) list"
  logged :: "string list"

text \<open>
  \<open>fs.unlinkSync\<close> throws when the file is missing or when the system refuses
  (\<open>fails\<close>); the result says whether it returned normally.
\<close>

definition unlinkSync :: "bool \<Rightarrow> string \<Rightarrow> machine \<Rightarrow> bool \<times> machine" where
  "unlinkSync fails path m =
     (let m1 = m\<lparr>unlinkCalls := unlinkCalls m @ [path]\<rparr> in
      if fails \<or> map_of (tempFiles m) path = None then (False, m1)
      else (True, m1\<lparr>tempFiles := AList.delete path (tempFiles m1)\<rparr>))"

text \<open>Resolving or rejecting a promise that is already settled changes nothing.\<close>

definition settle :: "'a \<Rightarrow> 'a option \<Rightarrow> 'a option" where
  "settle r promise = (case promise of None \<Rightarrow> Some r | Some earlier \<Rightarrow> Some earlier)"

text \<open>
  \<open>child_process.spawn\<close> throws a \<open>TypeError\<close> at once when the file is not a
  non-empty string. Otherwise the system decides: Node reports the failures
  \<open>EACCES\<close>, \<open>EAGAIN\<close>, \<open>EMFILE\<close>, \<open>ENFILE\<close> and \<open>ENOENT\<close> later, through the
  \<open>error\<close> event of the process object it returns, and throws every other failure of
  the system call from \<open>spawn\<close> itself.
\<close>

datatype spawn_outcome = SpawnThrows js_error | SpawnReturns

definition spawn ::
    "spawn_outcome \<Rightarrow> string option \<Rightarrow> string option list \<Rightarrow> machine
       \<Rightarrow> (js_error + unit) \<times> machine" where
  "spawn outcome file args m =
     (case file of
        None \<Rightarrow> (Inl TypeError, m)
      | Some f \<Rightarrow>
          if f = [] then (Inl TypeError, m)
          else (case outcome of
                  SpawnThrows e \<Rightarrow> (Inl e, m)
                | SpawnReturns \<Rightarrow> (Inr (), m\<lparr>spawned := spawned m @ [(f, args)]\<rparr>)))"

text \<open>
  \<open>transcribe\<close> up to the point where the handlers are installed: the guard, the WAV
  file, the spawn. \<open>now\<close> is \<open>Date.now()\<close> in decimal. An exception of
  \<open>writeWavFile\<close> or of \<open>spawn\<close> leaves \<open>transcribe\<close> as a rejection; the code has
  no handler around either call. (\<open>fs.writeFileSync\<close> is taken to succeed.)
\<close>

definition transcribe_begin ::
    "string \<Rightarrow> string \<Rightarrow> spawn_outcome \<Rightarrow> rat list \<Rightarrow> desktopTranscriber \<Rightarrow> machine
       \<Rightarrow> (js_error + string) \<times> machine" where
  "transcribe_begin tmpdir now outcome audioData dt m =
     (if \<not> initialized dt then (Inl (Error ''Transcriber not initialized''), m)
      else
        (let tempWavPath = path_join tmpdir (''whisper-'' @ now @ ''.wav'') in
         case writeWavFile audioData 16000 of
           Inl e \<Rightarrow> (Inl e, m)
         | Inr buffer \<Rightarrow>
             (let m1 = m\<lparr>tempFiles := AList.update tempWavPath buffer (tempFiles m),
                          logged := logged m @ [''Wrote temp WAV'']\<rparr>;
                  args = [Some ''-m'', modelPath dt, Some ''-f'', Some tempWavPath,
                          Some ''-nt'', Some ''-np''];
                  m2 = m1\<lparr>logged := logged m1 @ [''Spawning whisper'']\<rparr>
              in case spawn outcome (whisperPath dt) args m2 of
                   (Inl e, m3) \<Rightarrow> (Inl e, m3)
                 | (Inr _, m3) \<Rightarrow> (Inr tempWavPath, m3))))"

text \<open>
  The handlers of the \<open>close\<close> and the \<open>error\<close> event, each applied to the promise
  (\<open>None\<close> while pending) and the machine. The message of the rejection after a nonzero
  exit is shortened: the code writes the exit code into it.
\<close>

definition on_close ::
    "int option \<Rightarrow> string \<Rightarrow> string \<Rightarrow> string \<Rightarrow> bool
       \<Rightarrow> (js_error + string) option \<times> machine \<Rightarrow> (js_error + string) option \<times> machine" where
  "on_close code stdout stderr tempWavPath unlinkFails st =
     (let promise = fst st; m = snd st;
          (deleted, m1) = unlinkSync unlinkFails tempWavPath m;
          m2 = (if deleted then m1 else m1\<lparr>logged := logged m1 @ [''Failed to delete temp file'']\<rparr>)
      in if code = Some 0
         then (settle (Inr (trim stdout)) promise,
               m2\<lparr>logged := logged m2 @ [''Transcription result'']\<rparr>)
         else (settle (Inl (Error (''whisper.cpp exited: '' @ stderr))) promise,
               m2\<lparr>logged := logged m2 @ [''whisper.cpp failed'']\<rparr>))"

definition on_error ::
    "js_error \<Rightarrow> string \<Rightarrow> bool
       \<Rightarrow> (js_error + string) option \<times> machine \<Rightarrow> (js_error + string) option \<times> machine" where
  "on_error error tempWavPath unlinkFails st =
     (let promise = fst st; m = snd st;
          (deleted, m1) = unlinkSync unlinkFails tempWavPath m
      in (settle (Inl error) promise,
          m1\<lparr>logged := logged m1 @ [''whisper.cpp spawn error'']\<rparr>))"

text \<open>
  The events of the process object. A process that was started ends with one \<open>close\<close>
  event (the exit code, or none when a signal killed it); a process that could not be
  started gets an \<open>error\<close> event and then a \<open>close\<close> event.
\<close>

datatype proc_event = ProcClose "int option" | ProcError js_error

fun deliver ::
    "proc_event list \<Rightarrow> string \<Rightarrow> string \<Rightarrow> string \<Rightarrow> bool
       \<Rightarrow> (js_error + string) option \<times> machine \<Rightarrow> (js_error + string) option \<times> machine" where
  "deliver [] stdout stderr tempWavPath unlinkFails st = st"
| "deliver (ProcClose code # events) stdout stderr tempWavPath unlinkFails st =
     deliver events stdout stderr tempWavPath unlinkFails
       (on_close code stdout stderr tempWavPath unlinkFails st)"
| "deliver (ProcError error # events) stdout stderr tempWavPath unlinkFails st =
     deliver events stdout stderr tempWavPath unlinkFails
       (on_error error tempWavPath unlinkFails st)"

definition idle_machine :: machine where
  "idle_machine = \<lparr>tempFiles = [], unlinkCalls = [], spawned = [], logged = []\<rparr>"

section \<open>The content filter and the order of insertion\<close>

lemma wrappedIn_iff:
  "l \<noteq> r \<Longrightarrow> wrappedIn l r t \<longleftrightarrow> startsWith t l \<and> endsWith t r"
proof
  assume "wrappedIn l r t"
  then obtain body where "t = l # body @ [r]" by (auto simp: wrappedIn_def)
  then show "startsWith t l \<and> endsWith t r"
    by (simp add: startsWith_def endsWith_def)
next
  assume lr: "l \<noteq> r" and h: "startsWith t l \<and> endsWith t r"
  then obtain rest where t: "t = l # rest"
    by (cases t) (auto simp: startsWith_def)
  with h lr have "rest \<noteq> []" and "last rest = r"
    by (auto simp: endsWith_def split: if_splits)
  then have "rest = butlast rest @ [r]"
    by (metis append_butlast_last_id)
  with t have "t = l # butlast rest @ [r]" by simp
  then show "wrappedIn l r t" unfolding wrappedIn_def by blast
qed

lemma insertable_iff_not_dropped: "insertable t \<longleftrightarrow> \<not> spec_dropped t"
  by (auto simp: insertable_def spec_dropped_def wrappedIn_iff)

lemma insertChunkText_pending [simp]:
  "pendingResults (insertChunkText t s) = pendingResults s"
  "nextInsertChunk (insertChunkText t s) = nextInsertChunk s"
  by (simp_all add: insertChunkText_def Let_def split: option.split)

lemma inserted_insertChunkText:
  "targetEditor s \<noteq> None \<Longrightarrow>
   inserted (insertChunkText t s) = inserted s @ (if insertable t then [t @ '' ''] else [])
   \<and> targetEditor (insertChunkText t s) \<noteq> None"
  by (auto simp: insertChunkText_def inserted_def Let_def replaceRange_def setCursor_def
      getCursor_def)

declare flushPendingResults.simps [simp del]

lemma flush_None:
  "map_of (pendingResults s) (nextInsertChunk s) = None \<Longrightarrow> flushPendingResults s = s"
  by (subst flushPendingResults.simps) simp

lemma flush_Some:
  "map_of (pendingResults s) (nextInsertChunk s) = Some t \<Longrightarrow>
   flushPendingResults s =
     flushPendingResults
       ((insertChunkText t
          (s\<lparr>pendingResults := AList.delete (nextInsertChunk s) (pendingResults s)\<rparr>))
        \<lparr>nextInsertChunk := nextInsertChunk s + 1\<rparr>)"
  by (subst flushPendingResults.simps) simp

lemma targetEditor_insertChunkText:
  "targetEditor s = Some e \<Longrightarrow>
   targetEditor (insertChunkText t s) = Some (if spec_dropped t then e else spec_insertAt e t)"
  by (simp add: insertChunkText_def insertable_iff_not_dropped Let_def replaceRange_def
      setCursor_def getCursor_def spec_insertAt_def)

text \<open>
  C5. Let the map hold the texts \<open>ts\<close> under the consecutive chunk numbers that start
  at \<open>nextInsertChunk\<close>, and nothing under the number after them. Then
  \<open>flushPendingResults\<close> pops exactly these texts, and what the editor has received
  afterwards is what the specification's sink receives when the texts that are not
  dropped (not empty, not \<open>you\<close>, not wrapped in square brackets or parentheses) are
  inserted one after the other: each once, at the cursor, with one space appended, and
  the cursor moved right by the inserted length. The dropped texts cause no call at all.
\<close>

theorem content_filter_and_insertion:
  assumes "\<forall>i<length ts. map_of (pendingResults s) (nextInsertChunk s + i) = Some (ts ! i)"
    and "map_of (pendingResults s) (nextInsertChunk s + length ts) = None"
    and "targetEditor s = Some e"
  shows "targetEditor (flushPendingResults s) =
           Some (foldl spec_insertAt e (filter (\<lambda>t. \<not> spec_dropped t) ts))
     \<and> nextInsertChunk (flushPendingResults s) = nextInsertChunk s + length ts"
  using assms
proof (induction ts arbitrary: s e)
  case Nil
  then have "flushPendingResults s = s" by (simp add: flush_None)
  with Nil show ?case by simp
next
  case (Cons t ts)
  let ?n = "nextInsertChunk s"
  let ?s' = "(insertChunkText t (s\<lparr>pendingResults := AList.delete ?n (pendingResults s)\<rparr>))
               \<lparr>nextInsertChunk := ?n + 1\<rparr>"
  let ?e' = "if spec_dropped t then e else spec_insertAt e t"
  from Cons.prems(1) have head: "map_of (pendingResults s) ?n = Some t" by force
  then have eq: "flushPendingResults s = flushPendingResults ?s'" by (rule flush_Some)
  have n': "nextInsertChunk ?s' = ?n + 1" by simp
  have p': "map_of (pendingResults ?s') k = (if k = ?n then None else map_of (pendingResults s) k)" for k
    by (simp add: delete_conv')
  have 1: "\<forall>i<length ts. map_of (pendingResults ?s') (nextInsertChunk ?s' + i) = Some (ts ! i)"
  proof (intro allI impI)
    fix i assume "i < length ts"
    then have "map_of (pendingResults s) (?n + Suc i) = Some ((t # ts) ! Suc i)"
      using Cons.prems(1) by (metis Suc_less_eq length_Cons)
    then show "map_of (pendingResults ?s') (nextInsertChunk ?s' + i) = Some (ts ! i)"
      unfolding n' p' by simp
  qed
  have 2: "map_of (pendingResults ?s') (nextInsertChunk ?s' + length ts) = None"
    using Cons.prems(2) unfolding n' p' by simp
  have 3: "targetEditor ?s' = Some ?e'"
    using targetEditor_insertChunkText [of "s\<lparr>pendingResults := AList.delete ?n (pendingResults s)\<rparr>" e t]
      Cons.prems(3) by simp
  from Cons.IH [OF 1 2 3] show ?case unfolding eq n' by simp
qed

theorem content_filter_and_insertion_witness:
  "targetEditor (flushPendingResults filter_example) =
     Some \<lparr>cursor = \<lparr>line = 0, ch = 12\<rparr>,
           replaceRange_calls = [(''hello world '', \<lparr>line = 0, ch = 0\<rparr>)]\<rparr>
   \<and> nextInsertChunk (flushPendingResults filter_example) = 6"
proof -
  let ?ts = "[[], ''you'', ''[BLANK_AUDIO]'', ''hello world'', ''(silence)'']"
  let ?e = "\<lparr>cursor = \<lparr>line = 0, ch = 0\<rparr>, replaceRange_calls = []\<rparr>"
  have n: "nextInsertChunk filter_example = 1" by (simp add: filter_example_def ready_plugin_def)
  have 1: "\<forall>i<length ?ts. map_of (pendingResults filter_example) (nextInsertChunk filter_example + i)
             = Some (?ts ! i)"
    unfolding n by (simp add: filter_example_def All_less_Suc)
  have 2: "map_of (pendingResults filter_example) (nextInsertChunk filter_example + length ?ts) = None"
    unfolding n by (simp add: filter_example_def)
  have 3: "targetEditor filter_example = Some ?e" by (simp add: filter_example_def ready_plugin_def)
  have 4: "filter (\<lambda>t. \<not> spec_dropped t) ?ts = [''hello world'']"
    by (simp add: insertable_iff_not_dropped [symmetric] insertable_def startsWith_def endsWith_def)
  from content_filter_and_insertion [OF 1 2 3] show ?thesis
    unfolding 4 n by (simp add: spec_insertAt_def)
qed

lemma flush_scan:
  "nextInsertChunk s \<le> nextInsertChunk (flushPendingResults s)
   \<and> (\<forall>k. nextInsertChunk s \<le> k \<and> k < nextInsertChunk (flushPendingResults s)
          \<longrightarrow> map_of (pendingResults s) k \<noteq> None)
   \<and> map_of (pendingResults s) (nextInsertChunk (flushPendingResults s)) = None
   \<and> (\<forall>k. map_of (pendingResults (flushPendingResults s)) k =
          (if nextInsertChunk s \<le> k \<and> k < nextInsertChunk (flushPendingResults s) then None
           else map_of (pendingResults s) k))"
proof (induction s rule: flushPendingResults.induct)
  case (1 s)
  show ?case
  proof (cases "map_of (pendingResults s) (nextInsertChunk s)")
    case None
    then show ?thesis by (auto simp add: flush_None)
  next
    case (Some t)
    let ?s' = "(insertChunkText t
          (s\<lparr>pendingResults := AList.delete (nextInsertChunk s) (pendingResults s)\<rparr>))
        \<lparr>nextInsertChunk := nextInsertChunk s + 1\<rparr>"
    have eq: "flushPendingResults s = flushPendingResults ?s'" by (rule flush_Some [OF Some])
    have n': "nextInsertChunk ?s' = nextInsertChunk s + 1" by simp
    have m': "map_of (pendingResults ?s') = (map_of (pendingResults s))(nextInsertChunk s := None)"
      by (simp add: delete_conv')
    note ih = "1.IH" [OF Some, unfolded n' m', folded eq]
    show ?thesis
    proof (intro conjI allI impI)
      show "nextInsertChunk s \<le> nextInsertChunk (flushPendingResults s)" using ih by simp
    next
      fix k assume "nextInsertChunk s \<le> k \<and> k < nextInsertChunk (flushPendingResults s)"
      then show "map_of (pendingResults s) k \<noteq> None"
        using ih Some by (cases "k = nextInsertChunk s") (auto split: if_splits)
    next
      show "map_of (pendingResults s) (nextInsertChunk (flushPendingResults s)) = None"
        using ih by (auto split: if_splits)
    next
      fix k
      show "map_of (pendingResults (flushPendingResults s)) k =
          (if nextInsertChunk s \<le> k \<and> k < nextInsertChunk (flushPendingResults s) then None
           else map_of (pendingResults s) k)"
        using ih by (cases "k = nextInsertChunk s") (auto split: if_splits)
    qed
  qed
qed

lemma flush_inserted:
  "targetEditor s \<noteq> None \<Longrightarrow>
   targetEditor (flushPendingResults s) \<noteq> None
   \<and> inserted (flushPendingResults s) =
       inserted s @ map (\<lambda>t. t @ '' '')
         (filter insertable (map (\<lambda>k. the (map_of (pendingResults s) k))
            [nextInsertChunk s ..< nextInsertChunk (flushPendingResults s)]))"
proof (induction s rule: flushPendingResults.induct)
  case (1 s)
  show ?case
  proof (cases "map_of (pendingResults s) (nextInsertChunk s)")
    case None
    then show ?thesis using "1.prems" by (simp add: flush_None)
  next
    case (Some t)
    let ?s0 = "s\<lparr>pendingResults := AList.delete (nextInsertChunk s) (pendingResults s)\<rparr>"
    let ?s' = "(insertChunkText t ?s0)\<lparr>nextInsertChunk := nextInsertChunk s + 1\<rparr>"
    have eq: "flushPendingResults s = flushPendingResults ?s'" by (rule flush_Some [OF Some])
    have n': "nextInsertChunk ?s' = nextInsertChunk s + 1" by simp
    have m': "map_of (pendingResults ?s') = (map_of (pendingResults s))(nextInsertChunk s := None)"
      by (simp add: delete_conv')
    have te0: "targetEditor ?s0 \<noteq> None" using "1.prems" by simp
    have te: "targetEditor ?s' \<noteq> None"
      using inserted_insertChunkText [OF te0, of t] by simp
    have ins: "inserted ?s' = inserted s @ (if insertable t then [t @ '' ''] else [])"
      using inserted_insertChunkText [OF te0, of t] by (simp add: inserted_def)
    note ih = "1.IH" [OF Some te, unfolded n' m' ins, folded eq]
    have le: "nextInsertChunk s + 1 \<le> nextInsertChunk (flushPendingResults s)"
      using flush_scan [of ?s'] unfolding n' eq by simp
    have upt: "[nextInsertChunk s ..< nextInsertChunk (flushPendingResults s)] =
               nextInsertChunk s # [nextInsertChunk s + 1 ..< nextInsertChunk (flushPendingResults s)]"
      using le by (simp add: upt_conv_Cons)
    have same: "map (\<lambda>k. the (((map_of (pendingResults s))(nextInsertChunk s := None)) k))
                  [nextInsertChunk s + 1 ..< nextInsertChunk (flushPendingResults s)]
              = map (\<lambda>k. the (map_of (pendingResults s) k))
                  [nextInsertChunk s + 1 ..< nextInsertChunk (flushPendingResults s)]"
      by (rule map_cong) auto
    show ?thesis
      using ih unfolding same upt by (simp add: Some)
  qed
qed

lemma flush_frame:
  "transcriber (flushPendingResults s) = transcriber s
   \<and> isModelLoading (flushPendingResults s) = isModelLoading s
   \<and> isRecording (flushPendingResults s) = isRecording s
   \<and> mediaStream (flushPendingResults s) = mediaStream s
   \<and> processingCount (flushPendingResults s) = processingCount s
   \<and> chunkNumber (flushPendingResults s) = chunkNumber s
   \<and> isStopping (flushPendingResults s) = isStopping s"
proof (induction s rule: flushPendingResults.induct)
  case (1 s)
  show ?case
  proof (cases "map_of (pendingResults s) (nextInsertChunk s)")
    case None
    then show ?thesis by (simp add: flush_None)
  next
    case (Some t)
    show ?thesis
      using "1.IH" [OF Some] unfolding flush_Some [OF Some]
      by (simp add: insertChunkText_def Let_def split: option.split)
  qed
qed

lemma submitAll_snoc:
  "submitAll (subs @ [(k, t)]) s = submitResult k t (submitAll subs s)"
  by (simp add: submitAll_def)

lemma map_of_snoc_fresh:
  assumes "k \<notin> fst ` set subs"
  shows "map_of (subs @ [(k, t)]) j = (if j = k then Some t else map_of subs j)"
proof -
  have "map_of subs k = None" using assms by (simp add: map_of_eq_None_iff)
  then show ?thesis by (auto simp: map_add_def split: option.split)
qed

lemma submitAll_inv:
  assumes start: "nextInsertChunk s = 1" "pendingResults s = []" "targetEditor s \<noteq> None"
  shows "distinct (map fst subs) \<Longrightarrow> (\<forall>k\<in>fst ` set subs. 1 \<le> k) \<Longrightarrow>
     1 \<le> nextInsertChunk (submitAll subs s)
     \<and> (\<forall>k. 1 \<le> k \<and> k < nextInsertChunk (submitAll subs s) \<longrightarrow> k \<in> fst ` set subs)
     \<and> nextInsertChunk (submitAll subs s) \<notin> fst ` set subs
     \<and> (\<forall>k. map_of (pendingResults (submitAll subs s)) k =
            (if nextInsertChunk (submitAll subs s) \<le> k then map_of subs k else None))
     \<and> targetEditor (submitAll subs s) \<noteq> None
     \<and> inserted (submitAll subs s) =
         inserted s @ map (\<lambda>t. t @ '' '')
           (filter insertable (map (\<lambda>k. the (map_of subs k))
              [1 ..< nextInsertChunk (submitAll subs s)]))"
proof (induction subs rule: rev_induct)
  case Nil
  then show ?case using start by (simp add: submitAll_def)
next
  case (snoc x subs)
  obtain k t where x: "x = (k, t)" by (cases x)
  from snoc.prems x have d: "distinct (map fst subs)" and fresh: "k \<notin> fst ` set subs"
    and pos: "\<forall>j\<in>fst ` set subs. 1 \<le> j" and k1: "1 \<le> k"
    by auto
  let ?s1 = "submitAll subs s"
  let ?n = "nextInsertChunk ?s1"
  note ih = snoc.IH [OF d pos]
  have kn: "?n \<le> k" using ih fresh k1 by (metis not_le_imp_less)
  let ?s2 = "?s1\<lparr>pendingResults := AList.update k t (pendingResults ?s1)\<rparr>"
  define M where "M = map_of (subs @ [x])"
  define K where "K = fst ` set (subs @ [x])"
  have M: "\<And>j. M j = (if j = k then Some t else map_of subs j)"
    unfolding M_def x by (rule map_of_snoc_fresh [OF fresh])
  have p2: "\<And>j. map_of (pendingResults ?s2) j = (if ?n \<le> j then M j else None)"
    using ih kn by (simp add: update_conv' M)
  have n2: "nextInsertChunk ?s2 = ?n" by simp
  have te2: "targetEditor ?s2 \<noteq> None" using ih by simp
  have ins2: "inserted ?s2 = inserted ?s1" by (simp add: inserted_def)
  let ?s' = "flushPendingResults ?s2"
  let ?n' = "nextInsertChunk ?s'"
  have s': "submitAll (subs @ [x]) s = ?s'"
    by (simp add: x submitAll_snoc submitResult_def)
  note sc = flush_scan [of ?s2, unfolded n2]
  note fi = flush_inserted [OF te2, unfolded n2 ins2]
  have le: "?n \<le> ?n'" using sc by blast
  have K: "K = insert k (fst ` set subs)" by (simp add: K_def x)
  have dom: "M j \<noteq> None \<longleftrightarrow> j \<in> K" for j
    unfolding M K using map_of_eq_None_iff [of subs j] by (cases "j = k") auto
  have a: "1 \<le> ?n'" using ih le by linarith
  have b: "\<forall>j. 1 \<le> j \<and> j < ?n' \<longrightarrow> j \<in> K"
  proof (intro allI impI)
    fix j assume j: "1 \<le> j \<and> j < ?n'"
    show "j \<in> K"
    proof (cases "j < ?n")
      case True
      then show ?thesis using ih j K by blast
    next
      case False
      then have "map_of (pendingResults ?s2) j \<noteq> None" using sc j by simp
      then have "M j \<noteq> None" using p2 [of j] False by simp
      then show ?thesis using dom by blast
    qed
  qed
  have c: "?n' \<notin> K"
  proof -
    have "map_of (pendingResults ?s2) ?n' = None" using sc by blast
    then have "M ?n' = None" using p2 [of ?n'] le by simp
    then show ?thesis using dom [of ?n'] by blast
  qed
  have e: "\<forall>j. map_of (pendingResults ?s') j = (if ?n' \<le> j then M j else None)"
  proof
    fix j
    have "map_of (pendingResults ?s') j =
            (if ?n \<le> j \<and> j < ?n' then None else map_of (pendingResults ?s2) j)"
      using sc by blast
    then show "map_of (pendingResults ?s') j = (if ?n' \<le> j then M j else None)"
      using p2 [of j] le by auto
  qed
  have low: "map (\<lambda>j. the (map_of subs j)) [1 ..< ?n] = map (\<lambda>j. the (M j)) [1 ..< ?n]"
    by (rule map_cong) (use kn in \<open>auto simp: M\<close>)
  have high: "map (\<lambda>j. the (map_of (pendingResults ?s2) j)) [?n ..< ?n']
            = map (\<lambda>j. the (M j)) [?n ..< ?n']"
  proof (rule map_cong)
    fix j assume "j \<in> set [?n ..< ?n']"
    then have "?n \<le> j" by simp
    then show "the (map_of (pendingResults ?s2) j) = the (M j)" by (simp only: p2 if_True)
  qed simp
  have split: "[1 ..< ?n'] = [1 ..< ?n] @ [?n ..< ?n']"
  proof -
    have "1 \<le> ?n" using ih by blast
    then show ?thesis using le by (metis le_Suc_ex upt_add_eq_append)
  qed
  have f: "inserted ?s' = inserted s @ map (\<lambda>t. t @ '' '')
           (filter insertable (map (\<lambda>j. the (M j)) [1 ..< ?n']))"
  proof -
    have "inserted ?s' = inserted ?s1 @ map (\<lambda>t. t @ '' '')
           (filter insertable (map (\<lambda>j. the (M j)) [?n ..< ?n']))"
      using fi unfolding high by blast
    moreover have "inserted ?s1 = inserted s @ map (\<lambda>t. t @ '' '')
           (filter insertable (map (\<lambda>j. the (M j)) [1 ..< ?n]))"
      using ih unfolding low by blast
    ultimately show ?thesis unfolding split by simp
  qed
  have g: "targetEditor ?s' \<noteq> None" using fi by blast
  show ?case unfolding s' M_def [symmetric] K_def [symmetric]
    using a b c e f g by blast
qed

lemma startRecording_granted_plug:
  "plug (startRecording_granted ss) =
     (plug ss)\<lparr>mediaStream := True, isRecording := True, chunkNumber := 1,
       nextInsertChunk := 1, pendingResults := []\<rparr>"
  by (simp add: startRecording_granted_def recordChunk_def Let_def)

text \<open>
  C1. Chunks 1..N of one recording session, their results submitted in any order (each
  by \<open>pendingResults.set\<close> followed by \<open>flushPendingResults\<close>): the texts handed to
  the editor are those of chunks 1, 2, ..., N in this order, without the texts the
  content filter drops, each with its trailing space. Afterwards the sequencer waits
  for chunk N + 1 and holds nothing.
\<close>

theorem insertion_order:
  assumes "distinct (map fst subs)" and "set (map fst subs) = {1..N}"
    and "targetEditor (plug ss) \<noteq> None"
  shows "inserted (submitAll subs (plug (startRecording_granted ss))) =
           inserted (plug ss) @ map (\<lambda>t. t @ '' '')
             (filter insertable (map (\<lambda>k. the (map_of subs k)) [1 ..< Suc N]))
         \<and> nextInsertChunk (submitAll subs (plug (startRecording_granted ss))) = Suc N
         \<and> (\<forall>k. map_of (pendingResults (submitAll subs (plug (startRecording_granted ss)))) k = None)"
proof -
  let ?s0 = "plug (startRecording_granted ss)"
  let ?n = "nextInsertChunk (submitAll subs ?s0)"
  have s0: "nextInsertChunk ?s0 = 1" "pendingResults ?s0 = []" "targetEditor ?s0 \<noteq> None"
    using assms(3) by (simp_all add: startRecording_granted_plug)
  have ins0: "inserted ?s0 = inserted (plug ss)"
    by (simp add: startRecording_granted_plug inserted_def)
  have keys: "fst ` set subs = {1..N}" using assms(2) by simp
  then have pos: "\<forall>k\<in>fst ` set subs. 1 \<le> k" by simp
  note inv = submitAll_inv [OF s0 assms(1) pos, unfolded keys ins0]
  have n: "?n = Suc N"
  proof (rule ccontr)
    assume ne: "?n \<noteq> Suc N"
    have "1 \<le> ?n" and out: "?n \<notin> {1..N}" using inv by blast+
    then have "N < ?n" by simp
    with ne have "1 \<le> Suc N \<and> Suc N < ?n" by simp
    then have "Suc N \<in> {1..N}" using inv by blast
    then show False by simp
  qed
  have empty: "\<forall>k. map_of (pendingResults (submitAll subs ?s0)) k = None"
  proof
    fix k
    have "map_of (pendingResults (submitAll subs ?s0)) k = (if ?n \<le> k then map_of subs k else None)"
      using inv by blast
    moreover have "?n \<le> k \<Longrightarrow> map_of subs k = None"
      using keys n by (simp add: map_of_eq_None_iff)
    ultimately show "map_of (pendingResults (submitAll subs ?s0)) k = None" by simp
  qed
  from inv n empty show ?thesis by simp
qed

theorem insertion_order_witness:
  "distinct (map fst [(3::nat, ''gamma''), (1, ''alpha''), (4, ''you''), (2, ''beta'')])
   \<and> set (map fst [(3::nat, ''gamma''), (1, ''alpha''), (4, ''you''), (2, ''beta'')]) = {1..4}
   \<and> targetEditor (plug idle_session) \<noteq> None
   \<and> inserted (submitAll [(3, ''gamma''), (1, ''alpha''), (4, ''you''), (2, ''beta'')]
        (plug (startRecording_granted idle_session))) = [''alpha '', ''beta '', ''gamma '']"
proof -
  have d: "distinct (map fst [(3::nat, ''gamma''), (1, ''alpha''), (4, ''you''), (2, ''beta'')])"
    by simp
  have k: "set (map fst [(3::nat, ''gamma''), (1, ''alpha''), (4, ''you''), (2, ''beta'')]) = {1..4}"
    by auto
  have t: "targetEditor (plug idle_session) \<noteq> None"
    by (simp add: idle_session_def ready_plugin_def)
  have "inserted (submitAll [(3, ''gamma''), (1, ''alpha''), (4, ''you''), (2, ''beta'')]
        (plug (startRecording_granted idle_session))) = [''alpha '', ''beta '', ''gamma '']"
    using insertion_order [OF d k t]
    by (simp add: inserted_def idle_session_def ready_plugin_def insertable_def startsWith_def
        endsWith_def upt_conv_Cons)
  with d k t show ?thesis by blast
qed

section \<open>Invariants of the recording session\<close>

lemma pendingKeys_dom: "k \<in> pendingKeys s \<longleftrightarrow> map_of (pendingResults s) k \<noteq> None"
  by (simp add: pendingKeys_def map_of_eq_None_iff)

lemma session_inv_start:
  "recorders ss = [] \<Longrightarrow> inFlight ss = [] \<Longrightarrow> session_inv (startRecording_granted ss)"
  by (simp add: session_inv_def startRecording_granted_def recordChunk_def Let_def pendingKeys_def)

lemma session_inv_recordChunk:
  assumes "session_inv ss" and "recorders ss = []"
  shows "session_inv (recordChunk ss)"
  using assms unfolding session_inv_def recordChunk_def Let_def pendingKeys_def
  by (auto simp: le_Suc_eq)

lemma single_recorder:
  assumes "session_inv ss" and "c \<in> set (recorders ss)"
  shows "recorders ss = [c]"
proof -
  from assms(1) have "length (recorders ss) \<le> 1" by (simp add: session_inv_def)
  with assms(2) show ?thesis by (cases "recorders ss") auto
qed

lemma session_inv_begin:
  assumes "session_inv ss" and "c \<in> set (recorders ss)"
  shows "session_inv (transcribeAudio_begin c (ss\<lparr>recorders := remove1 c (recorders ss)\<rparr>))"
proof -
  note r = single_recorder [OF assms]
  show ?thesis
    using assms unfolding session_inv_def transcribeAudio_begin_def Let_def pendingKeys_def r
    by auto
qed

lemma session_inv_onstop:
  assumes "session_inv ss" and "c \<in> set (recorders ss)"
  shows "session_inv (recorder_onstop hasAudio c (ss\<lparr>recorders := remove1 c (recorders ss)\<rparr>))"
proof -
  let ?ss0 = "ss\<lparr>recorders := remove1 c (recorders ss)\<rparr>"
  let ?ss1 = "if hasAudio then transcribeAudio_begin c ?ss0 else ?ss0"
  note r = single_recorder [OF assms]
  have i1: "session_inv ?ss1"
  proof (cases hasAudio)
    case True
    then show ?thesis using session_inv_begin [OF assms] by simp
  next
    case False
    then show ?thesis using assms by (auto simp: session_inv_def r)
  qed
  have a1: "recorders ?ss1 = []" by (simp add: r transcribeAudio_begin_def Let_def)
  have i3: "session_inv (?ss1\<lparr>plug := (plug ?ss1)\<lparr>isStopping := False, mediaStream := False\<rparr>\<rparr>)"
    using i1 by (simp add: session_inv_def pendingKeys_def)
  show ?thesis
    unfolding recorder_onstop_def Let_def
    using i1 i3 session_inv_recordChunk [OF i1 a1] by simp
qed

lemma session_inv_flush:
  assumes "session_inv ss"
  shows "session_inv (ss\<lparr>plug := flushPendingResults (plug ss)\<rparr>)"
proof -
  let ?p = "plug ss" and ?q = "flushPendingResults (plug ss)"
  note sc = flush_scan [of ?p]
  have fr: "chunkNumber ?q = chunkNumber ?p" using flush_frame [of ?p] by simp
  have keys: "\<And>k. k \<in> pendingKeys ?q \<longleftrightarrow>
     k \<in> pendingKeys ?p \<and> \<not> (nextInsertChunk ?p \<le> k \<and> k < nextInsertChunk ?q)"
    using sc by (simp add: pendingKeys_dom)
  have popped: "\<And>k. nextInsertChunk ?p \<le> k \<Longrightarrow> k < nextInsertChunk ?q \<Longrightarrow> k \<in> pendingKeys ?p"
    using sc by (simp add: pendingKeys_dom)
  show ?thesis
    unfolding session_inv_def
  proof (intro conjI ballI allI impI)
    show "nextInsertChunk (plug (ss\<lparr>plug := ?q\<rparr>)) \<le> chunkNumber (plug (ss\<lparr>plug := ?q\<rparr>)) + 1"
    proof (cases "nextInsertChunk ?q = nextInsertChunk ?p")
      case True
      then show ?thesis using assms by (simp add: fr session_inv_def)
    next
      case False
      then have "nextInsertChunk ?p \<le> nextInsertChunk ?q - 1" "nextInsertChunk ?q - 1 < nextInsertChunk ?q"
        using sc by auto
      then have "nextInsertChunk ?q - 1 \<in> pendingKeys ?p" by (rule popped)
      then have "nextInsertChunk ?q - 1 \<le> chunkNumber ?p" using assms by (auto simp: session_inv_def)
      then show ?thesis by (simp add: fr)
    qed
  next
    fix k assume "k \<in> pendingKeys (plug (ss\<lparr>plug := ?q\<rparr>))"
    then have k: "k \<in> pendingKeys ?p" "\<not> (nextInsertChunk ?p \<le> k \<and> k < nextInsertChunk ?q)"
      using keys by simp_all
    with assms have "nextInsertChunk ?p \<le> k" "k \<le> chunkNumber ?p"
      by (auto simp: session_inv_def)
    with k show "nextInsertChunk (plug (ss\<lparr>plug := ?q\<rparr>)) \<le> k"
      and "k \<le> chunkNumber (plug (ss\<lparr>plug := ?q\<rparr>))"
      by (simp_all add: fr)
  next
    show "distinct (inFlight (ss\<lparr>plug := ?q\<rparr>))" using assms by (simp add: session_inv_def)
  next
    fix k assume "k \<in> set (inFlight (ss\<lparr>plug := ?q\<rparr>))"
    then have k: "k \<in> set (inFlight ss)" by simp
    with assms have h: "nextInsertChunk ?p \<le> k" "k \<le> chunkNumber ?p" "k \<notin> pendingKeys ?p"
      by (auto simp: session_inv_def)
    then have "\<not> k < nextInsertChunk ?q" using popped [of k] by blast
    with h show "nextInsertChunk (plug (ss\<lparr>plug := ?q\<rparr>)) \<le> k"
      and "k \<le> chunkNumber (plug (ss\<lparr>plug := ?q\<rparr>))"
      and "k \<notin> pendingKeys (plug (ss\<lparr>plug := ?q\<rparr>))"
      using keys by (simp_all add: fr)
  next
    show "length (recorders (ss\<lparr>plug := ?q\<rparr>)) \<le> 1" using assms by (simp add: session_inv_def)
  next
    fix c assume "c \<in> set (recorders (ss\<lparr>plug := ?q\<rparr>))"
    then have c: "c \<in> set (recorders ss)" by simp
    with assms have h: "c = chunkNumber ?p" "nextInsertChunk ?p \<le> c" "c \<notin> set (inFlight ss)"
      "c \<notin> pendingKeys ?p"
      by (auto simp: session_inv_def)
    then have "\<not> c < nextInsertChunk ?q" using popped [of c] by blast
    with h show "c = chunkNumber (plug (ss\<lparr>plug := ?q\<rparr>))"
      and "nextInsertChunk (plug (ss\<lparr>plug := ?q\<rparr>)) \<le> c"
      and "c \<notin> set (inFlight (ss\<lparr>plug := ?q\<rparr>))"
      and "c \<notin> pendingKeys (plug (ss\<lparr>plug := ?q\<rparr>))"
      using keys by (simp_all add: fr)
  qed
qed

lemma session_inv_set:
  assumes "session_inv ss" and "k \<in> set (inFlight ss)"
  shows "session_inv (ss\<lparr>plug := (plug ss)\<lparr>pendingResults := AList.update k t (pendingResults (plug ss))\<rparr>,
                          inFlight := remove1 k (inFlight ss)\<rparr>)"
proof -
  from assms(1) have d: "distinct (inFlight ss)" by (simp add: session_inv_def)
  show ?thesis
    using assms unfolding session_inv_def pendingKeys_def
    by (auto simp: dom_update set_remove1_eq [OF d])
qed

lemma session_inv_settle:
  assumes "session_inv ss" and "k \<in> set (inFlight ss)"
  shows "session_inv (ss\<lparr>plug := transcribeAudio_settle k outcome (plug ss),
                          inFlight := remove1 k (inFlight ss)\<rparr>)"
proof (cases outcome)
  case Threw
  from assms(1) have d: "distinct (inFlight ss)" by (simp add: session_inv_def)
  show ?thesis
    using assms Threw unfolding session_inv_def pendingKeys_def transcribeAudio_settle_def Let_def
    by (auto simp: set_remove1_eq [OF d])
next
  case (Transcribed r)
  define t where "t = (case r of None \<Rightarrow> [] | Some t \<Rightarrow> if t = [] then [] else trim t)"
  let ?ss1 = "ss\<lparr>plug := (plug ss)\<lparr>pendingResults := AList.update k t (pendingResults (plug ss))\<rparr>,
                 inFlight := remove1 k (inFlight ss)\<rparr>"
  let ?ss2 = "?ss1\<lparr>plug := flushPendingResults (plug ?ss1)\<rparr>"
  have "session_inv ?ss1" by (rule session_inv_set [OF assms])
  then have "session_inv ?ss2" by (rule session_inv_flush)
  then have "session_inv (?ss2\<lparr>plug := (plug ?ss2)\<lparr>processingCount := processingCount (plug ?ss2) - 1\<rparr>\<rparr>)"
    by (simp add: session_inv_def pendingKeys_def)
  moreover have "ss\<lparr>plug := transcribeAudio_settle k outcome (plug ss),
                          inFlight := remove1 k (inFlight ss)\<rparr>
      = ?ss2\<lparr>plug := (plug ?ss2)\<lparr>processingCount := processingCount (plug ?ss2) - 1\<rparr>\<rparr>"
    by (simp add: Transcribed transcribeAudio_settle_def Let_def submitResult_def t_def)
  ultimately show ?thesis by simp
qed

lemma session_inv_step:
  assumes "session_inv ss" and "step e ss = Some ss'"
  shows "session_inv ss'"
proof (cases e)
  case (RecorderStopped c hasAudio)
  with assms show ?thesis
    by (auto split: if_splits intro: session_inv_onstop)
next
  case (TranscriptionSettled k outcome)
  with assms show ?thesis
    by (auto split: if_splits intro: session_inv_settle)
next
  case StopRequested
  have "session_inv (ss\<lparr>plug := stopRecording (plug ss)\<rparr>) = session_inv ss"
    by (simp add: session_inv_def stopRecording_def pendingKeys_def)
  with assms StopRequested show ?thesis by auto
qed

lemma session_inv_run:
  "session_inv ss \<Longrightarrow> run es ss = Some ss' \<Longrightarrow> session_inv ss'"
proof (induction es arbitrary: ss)
  case Nil
  then show ?case by simp
next
  case (Cons e es)
  then show ?case
    by (auto split: option.splits dest: session_inv_step)
qed

lemma settle_next_mono:
  "nextInsertChunk s \<le> nextInsertChunk (transcribeAudio_settle k outcome s)"
proof (cases outcome)
  case Threw
  then show ?thesis by (simp add: transcribeAudio_settle_def)
next
  case (Transcribed r)
  then show ?thesis
    using flush_scan [of "s\<lparr>pendingResults := AList.update k
        (case r of None \<Rightarrow> [] | Some t \<Rightarrow> if t = [] then [] else trim t) (pendingResults s)\<rparr>"]
    by (simp add: transcribeAudio_settle_def submitResult_def Let_def)
qed

lemma step_next_mono:
  assumes "step e ss = Some ss'"
  shows "nextInsertChunk (plug ss) \<le> nextInsertChunk (plug ss')"
proof (cases e)
  case (RecorderStopped c hasAudio)
  with assms show ?thesis
    by (auto simp: recorder_onstop_def transcribeAudio_begin_def recordChunk_def Let_def
        split: if_splits)
next
  case (TranscriptionSettled k outcome)
  with assms show ?thesis
    by (auto split: if_splits intro: settle_next_mono)
next
  case StopRequested
  with assms show ?thesis by (auto simp: stopRecording_def)
qed

lemma run_next_mono:
  "run es ss = Some ss' \<Longrightarrow> nextInsertChunk (plug ss) \<le> nextInsertChunk (plug ss')"
proof (induction es arbitrary: ss)
  case Nil
  then show ?case by simp
next
  case (Cons e es)
  from Cons.prems obtain ss1 where 1: "step e ss = Some ss1" and 2: "run es ss1 = Some ss'"
    by (auto split: option.splits)
  from step_next_mono [OF 1] Cons.IH [OF 2] show ?case by linarith
qed

text \<open>
  A recording that starts when the runtime holds no callback of an earlier one keeps the
  sequencer in order: in every state it reaches no key of \<open>pendingResults\<close> is below
  \<open>nextInsertChunk\<close>, and from any state on \<open>nextInsertChunk\<close> never decreases.
\<close>

lemma undisturbed_recording_invariants:
  assumes "recorders ss0 = []" and "inFlight ss0 = []"
    and "run es (startRecording_granted ss0) = Some ss" and "run es' ss = Some ss'"
  shows "nextInsertChunk (plug ss) \<le> nextInsertChunk (plug ss')
     \<and> (\<forall>k\<in>fst ` set (pendingResults (plug ss)). nextInsertChunk (plug ss) \<le> k)"
proof -
  have "session_inv ss"
    using session_inv_run [OF session_inv_start [OF assms(1,2)] assms(3)] .
  then have "\<forall>k\<in>fst ` set (pendingResults (plug ss)). nextInsertChunk (plug ss) \<le> k"
    by (simp add: session_inv_def pendingKeys_def)
  with run_next_mono [OF assms(4)] show ?thesis by blast
qed

lemmas session_eval = run.simps step.simps recorder_onstop_def transcribeAudio_begin_def
  transcribeAudio_settle_def recordChunk_def startRecording_granted_def ready_plugin_def
  idle_session_def submitResult_def Let_def flush_None flush_Some insertChunkText_def
  insertable_def startsWith_def endsWith_def trim_def isWhiteSpace_def replaceRange_def
  setCursor_def getCursor_def stopRecording_def AList.delete_eq

text \<open>
  C9. The first recording is stopped while the transcription of its chunk 1 is still
  running, and a second recording starts: \<open>startRecording\<close> resets \<open>nextInsertChunk\<close>
  and creates a new map, but the suspended call of the first recording is still there.
  The second recording's chunk 1 is transcribed and inserted, so \<open>nextInsertChunk\<close>
  becomes 2. Then the call of the first recording resumes and stores its text under its
  own chunk number 1 in the new map: an entry below \<open>nextInsertChunk\<close> exists, and no
  flush will ever remove it.
\<close>

theorem stale_transcription_breaks_sequencer_invariant:
  "run [RecorderStopped 1 True, StopRequested, RecorderStopped 2 False]
     (startRecording_granted idle_session) = Some stopped_session
   \<and> run [RecorderStopped 1 True,
          TranscriptionSettled 1 (Transcribed (Some ''new'')),
          TranscriptionSettled 1 (Transcribed (Some ''old''))]
       (startRecording_granted stopped_session) = Some overtaken_session
   \<and> nextInsertChunk (plug overtaken_session) = 2
   \<and> map_of (pendingResults (plug overtaken_session)) 1 = Some ''old''
   \<and> inserted (plug overtaken_session) = [''new '']"
proof (intro conjI)
  show "run [RecorderStopped 1 True, StopRequested, RecorderStopped 2 False]
     (startRecording_granted idle_session) = Some stopped_session"
    by (simp add: session_eval stopped_session_def)
  show "run [RecorderStopped 1 True,
          TranscriptionSettled 1 (Transcribed (Some ''new'')),
          TranscriptionSettled 1 (Transcribed (Some ''old''))]
       (startRecording_granted stopped_session) = Some overtaken_session"
    by (simp add: session_eval stopped_session_def overtaken_session_def)
qed (simp_all add: overtaken_session_def ready_plugin_def inserted_def)

lemma blocked_settle:
  assumes "nextInsertChunk s = k" and "map_of (pendingResults s) k = None" and "j \<noteq> k"
  shows "nextInsertChunk (transcribeAudio_settle j outcome s) = k
     \<and> map_of (pendingResults (transcribeAudio_settle j outcome s)) k = None
     \<and> chunkNumber (transcribeAudio_settle j outcome s) = chunkNumber s
     \<and> inserted (transcribeAudio_settle j outcome s) = inserted s"
proof (cases outcome)
  case Threw
  then show ?thesis using assms by (simp add: transcribeAudio_settle_def inserted_def)
next
  case (Transcribed r)
  define t where "t = (case r of None \<Rightarrow> [] | Some t \<Rightarrow> if t = [] then [] else trim t)"
  let ?s1 = "s\<lparr>pendingResults := AList.update j t (pendingResults s)\<rparr>"
  have "map_of (pendingResults ?s1) (nextInsertChunk ?s1) = None"
    using assms by (simp add: update_conv')
  then have "flushPendingResults ?s1 = ?s1" by (rule flush_None)
  then have "transcribeAudio_settle j outcome s = ?s1\<lparr>processingCount := processingCount ?s1 - 1\<rparr>"
    by (simp add: Transcribed transcribeAudio_settle_def submitResult_def Let_def t_def)
  then show ?thesis using assms by (simp add: update_conv' inserted_def)
qed

lemma blocked_recordChunk:
  assumes "blocked_at k ss"
  shows "blocked_at k (recordChunk ss) \<and> inserted (plug (recordChunk ss)) = inserted (plug ss)"
  using assms by (simp add: blocked_at_def recordChunk_def Let_def inserted_def)

lemma blocked_onstop:
  assumes "blocked_at k ss" and "c \<in> set (recorders ss)"
  shows "blocked_at k (recorder_onstop hasAudio c (ss\<lparr>recorders := remove1 c (recorders ss)\<rparr>))
     \<and> inserted (plug (recorder_onstop hasAudio c (ss\<lparr>recorders := remove1 c (recorders ss)\<rparr>)))
         = inserted (plug ss)"
proof -
  let ?ss0 = "ss\<lparr>recorders := remove1 c (recorders ss)\<rparr>"
  let ?ss1 = "if hasAudio then transcribeAudio_begin c ?ss0 else ?ss0"
  from assms have ck: "c \<noteq> k" by (auto simp: blocked_at_def)
  have k0: "k \<notin> set (remove1 c (recorders ss))"
    using assms(1) by (auto simp: blocked_at_def dest: notin_set_remove1)
  have b1: "blocked_at k ?ss1 \<and> inserted (plug ?ss1) = inserted (plug ss)"
    using assms(1) ck k0 by (simp add: blocked_at_def transcribeAudio_begin_def Let_def inserted_def)
  have b3: "blocked_at k (?ss1\<lparr>plug := (plug ?ss1)\<lparr>isStopping := False, mediaStream := False\<rparr>\<rparr>)
     \<and> inserted (plug (?ss1\<lparr>plug := (plug ?ss1)\<lparr>isStopping := False, mediaStream := False\<rparr>\<rparr>))
         = inserted (plug ss)"
    using b1 by (simp add: blocked_at_def inserted_def)
  have b4: "blocked_at k (recordChunk ?ss1) \<and> inserted (plug (recordChunk ?ss1)) = inserted (plug ss)"
    using blocked_recordChunk [of k ?ss1] b1 by simp
  show ?thesis
    unfolding recorder_onstop_def Let_def using b1 b3 b4 by simp
qed

lemma blocked_step:
  assumes "blocked_at k ss" and "step e ss = Some ss'"
  shows "blocked_at k ss' \<and> inserted (plug ss') = inserted (plug ss)"
proof (cases e)
  case (RecorderStopped c hasAudio)
  with assms(2) have "c \<in> set (recorders ss)"
    and "ss' = recorder_onstop hasAudio c (ss\<lparr>recorders := remove1 c (recorders ss)\<rparr>)"
    by (auto split: if_splits)
  with blocked_onstop [OF assms(1)] show ?thesis by simp
next
  case (TranscriptionSettled j outcome)
  with assms have j: "j \<in> set (inFlight ss)"
    and ss': "ss' = ss\<lparr>plug := transcribeAudio_settle j outcome (plug ss),
                          inFlight := remove1 j (inFlight ss)\<rparr>"
    by (auto split: if_splits)
  from assms(1) j have "j \<noteq> k" by (auto simp: blocked_at_def)
  have "k \<notin> set (remove1 j (inFlight ss))"
    using assms(1) by (auto simp: blocked_at_def dest: notin_set_remove1)
  with blocked_settle [OF _ _ \<open>j \<noteq> k\<close>, of "plug ss" outcome] assms(1)
  show ?thesis by (simp add: blocked_at_def ss')
next
  case StopRequested
  with assms(2) have "ss' = ss\<lparr>plug := stopRecording (plug ss)\<rparr>" by simp
  with assms(1) show ?thesis by (simp add: blocked_at_def stopRecording_def inserted_def)
qed

lemma blocked_run:
  "blocked_at k ss \<Longrightarrow> run es ss = Some ss' \<Longrightarrow>
   blocked_at k ss' \<and> inserted (plug ss') = inserted (plug ss)"
proof (induction es arbitrary: ss)
  case Nil
  then show ?case by simp
next
  case (Cons e es)
  from Cons.prems obtain ss1 where 1: "step e ss = Some ss1" and 2: "run es ss1 = Some ss'"
    by (auto split: option.splits)
  from blocked_step [OF Cons.prems(1) 1] Cons.IH [OF _ 2] show ?case by simp
qed

text \<open>
  C2. Three chunks are recorded; chunk 1 and chunk 3 are transcribed, the transcriber
  throws for chunk 2. The \<open>catch\<close> block stores nothing for chunk 2, so the session
  ends with only chunk 1 inserted, chunk 3 still pending and \<open>nextInsertChunk\<close> at 2;
  and whatever happens later in the session, nothing more is inserted.
\<close>

theorem failed_chunk_blocks_later_chunks:
  "run [RecorderStopped 1 True, RecorderStopped 2 True, RecorderStopped 3 True,
        TranscriptionSettled 1 (Transcribed (Some ''one'')),
        TranscriptionSettled 2 Threw,
        TranscriptionSettled 3 (Transcribed (Some ''three''))]
     (startRecording_granted idle_session) = Some blocked_session
   \<and> inserted (plug blocked_session) = [''one '']
   \<and> pendingResults (plug blocked_session) = [(3, ''three'')]
   \<and> (\<forall>es ss'. run es blocked_session = Some ss' \<longrightarrow>
         inserted (plug ss') = [''one ''] \<and> nextInsertChunk (plug ss') = 2)"
proof (intro conjI allI impI)
  show "run [RecorderStopped 1 True, RecorderStopped 2 True, RecorderStopped 3 True,
        TranscriptionSettled 1 (Transcribed (Some ''one'')),
        TranscriptionSettled 2 Threw,
        TranscriptionSettled 3 (Transcribed (Some ''three''))]
     (startRecording_granted idle_session) = Some blocked_session"
    by (simp add: session_eval blocked_session_def)
  show i: "inserted (plug blocked_session) = [''one '']"
    by (simp add: blocked_session_def inserted_def ready_plugin_def)
  show "pendingResults (plug blocked_session) = [(3, ''three'')]"
    by (simp add: blocked_session_def)
  have b: "blocked_at 2 blocked_session"
    by (simp add: blocked_at_def blocked_session_def ready_plugin_def)
  fix es ss' assume "run es blocked_session = Some ss'"
  from blocked_run [OF b this] i
  show "inserted (plug ss') = [''one '']" and "nextInsertChunk (plug ss') = 2"
    by (simp_all add: blocked_at_def)
qed

theorem failed_chunk_blocks_later_chunks_witness:
  "run [RecorderStopped 4 True, TranscriptionSettled 4 (Transcribed (Some ''four''))]
      blocked_session =
     Some (blocked_session\<lparr>plug := (plug blocked_session)\<lparr>chunkNumber := 5,
             pendingResults := [(3, ''three''), (4, ''four'')]\<rparr>,
           recorders := [5]\<rparr>)
   \<and> inserted (plug (blocked_session\<lparr>plug := (plug blocked_session)\<lparr>chunkNumber := 5,
             pendingResults := [(3, ''three''), (4, ''four'')]\<rparr>,
           recorders := [5]\<rparr>)) = [''one '']"
proof -
  have r: "run [RecorderStopped 4 True, TranscriptionSettled 4 (Transcribed (Some ''four''))]
      blocked_session =
     Some (blocked_session\<lparr>plug := (plug blocked_session)\<lparr>chunkNumber := 5,
             pendingResults := [(3, ''three''), (4, ''four'')]\<rparr>,
           recorders := [5]\<rparr>)"
    by (simp add: session_eval blocked_session_def)
  with failed_chunk_blocks_later_chunks show ?thesis by blast
qed

section \<open>Resampling: length, indices and values\<close>

subsection \<open>Rounding to a double\<close>

lemma pow2_pos [simp]: "0 < (2::rat) powi k"
  by (simp add: power_int_def)

lemma pow2_mono: "j \<le> k \<Longrightarrow> (2::rat) powi j \<le> 2 powi k"
  by (rule power_int_increasing) simp_all

lemma pow2_strict_mono: "j < k \<Longrightarrow> (2::rat) powi j < 2 powi k"
  by (rule power_int_strict_increasing) simp_all

lemma pow2_less_cancel: "(2::rat) powi j < 2 powi k \<Longrightarrow> j < k"
  by (rule ccontr) (use pow2_mono [of k j] in simp)

lemma pow2_add: "(2::rat) powi (j + k) = 2 powi j * 2 powi k"
  by (rule power_int_add) simp

lemma pow2_diff: "(2::rat) powi (j - k) = 2 powi j / 2 powi k"
  by (rule power_int_diff) simp

lemma bitlen_pow2:
  assumes "0 < a"
  shows "(2::rat) powi (bitlen a - 1) \<le> of_int a" and "of_int a < (2::rat) powi (bitlen a)"
proof -
  from bitlen_bounds [OF assms]
  have lo: "2 ^ nat (bitlen a - 1) \<le> a" and hi: "a < 2 ^ nat (bitlen a)" by simp_all
  from hi assms have pos: "0 < bitlen a"
    by (cases "bitlen a \<le> 0") auto
  have "(of_int (2 ^ nat (bitlen a - 1)) :: rat) \<le> of_int a" using lo by (simp only: of_int_le_iff)
  then show "(2::rat) powi (bitlen a - 1) \<le> of_int a"
    using pos by (simp add: power_int_def)
  have "(of_int a :: rat) < of_int (2 ^ nat (bitlen a))" using hi by (simp only: of_int_less_iff)
  then show "of_int a < (2::rat) powi (bitlen a)"
    using pos by (simp add: power_int_def)
qed

lemma exponent_of_bounds:
  assumes "0 < x"
  shows "2 powi (exponent_of x) \<le> x \<and> x < 2 powi (exponent_of x + 1)"
proof -
  obtain a b where q: "quotient_of x = (a, b)" by (cases "quotient_of x")
  then have b: "0 < b" and x: "x = of_int a / of_int b"
    by (rule quotient_of_denom_pos, rule quotient_of_div)
  from assms x b have a: "0 < a" by (simp add: zero_less_divide_iff)
  define d where "d = bitlen a - bitlen b"
  note A = bitlen_pow2 [OF a] and B = bitlen_pow2 [OF b]
  have bpos: "(0::rat) < of_int b" using b by simp
  have up: "x < 2 powi (d + 1)"
  proof -
    have "x < 2 powi (bitlen a) / of_int b"
      unfolding x using A(2) bpos by (simp add: divide_strict_right_mono)
    also have "\<dots> \<le> 2 powi (bitlen a) / 2 powi (bitlen b - 1)"
      using B(1) by (simp add: frac_le)
    also have "\<dots> = 2 powi (d + 1)"
      unfolding d_def pow2_diff [symmetric] by (simp add: algebra_simps)
    finally show ?thesis .
  qed
  have lo: "2 powi (d - 1) \<le> x"
  proof -
    have "(2::rat) powi (d - 1) = 2 powi (bitlen a - 1) / 2 powi (bitlen b)"
      unfolding d_def pow2_diff [symmetric] by (simp add: algebra_simps)
    also have "\<dots> \<le> 2 powi (bitlen a - 1) / of_int b"
      using B(2) bpos by (simp add: frac_le)
    also have "\<dots> \<le> x"
      unfolding x using A(1) bpos by (simp add: divide_right_mono)
    finally show ?thesis .
  qed
  have e: "exponent_of x = (if 2 powi d \<le> x then d else d - 1)"
    by (simp add: exponent_of_def q d_def Let_def)
  show ?thesis
  proof (cases "2 powi d \<le> x")
    case True
    with e up show ?thesis by simp
  next
    case False
    with e lo show ?thesis by simp
  qed
qed

lemma exponent_of_unique:
  assumes "2 powi e \<le> x" and "x < 2 powi (e + 1)"
  shows "exponent_of x = e"
proof -
  have "0 < x" using assms(1) pow2_pos [of e] by linarith
  note b = exponent_of_bounds [OF this]
  have "2 powi e < (2::rat) powi (exponent_of x + 1)" using assms(1) b by linarith
  then have 1: "e < exponent_of x + 1" by (rule pow2_less_cancel)
  have "2 powi (exponent_of x) < (2::rat) powi (e + 1)" using assms(2) b by linarith
  then have 2: "exponent_of x < e + 1" by (rule pow2_less_cancel)
  from 1 2 show ?thesis by simp
qed

lemma round_half_even_error: "\<bar>of_int (round_half_even y) - y\<bar> \<le> 1 / 2"
proof -
  define f where "f = \<lfloor>y\<rfloor>"
  have b: "of_int f \<le> y" "y < of_int f + 1" unfolding f_def by linarith+
  have r: "round_half_even y =
      (if y - of_int f < 1 / 2 then f else if 1 / 2 < y - of_int f then f + 1
       else if even f then f else f + 1)"
    by (simp add: round_half_even_def Let_def f_def)
  consider "y - of_int f < 1 / 2" | "1 / 2 < y - of_int f" | "y - of_int f = 1 / 2"
    by linarith
  then show ?thesis
  proof cases
    case 1
    with r have "round_half_even y = f" by simp
    with b 1 show ?thesis by simp
  next
    case 2
    with r have "round_half_even y = f + 1" by simp
    with b 2 show ?thesis by simp
  next
    case 3
    with r have "round_half_even y = f \<or> round_half_even y = f + 1" by simp
    with b 3 show ?thesis by auto
  qed
qed

lemma round_half_even_eqI:
  assumes "\<bar>y - of_int m\<bar> < 1 / 2"
  shows "round_half_even y = m"
proof -
  note e = round_half_even_error [of y]
  have "\<bar>(of_int (round_half_even y) :: rat) - of_int m\<bar> < 1" using assms e by linarith
  then have "\<bar>of_int (round_half_even y - m) :: rat\<bar> < 1" by simp
  then have "\<bar>round_half_even y - m\<bar> < 1" by (simp only: of_int_abs [symmetric] of_int_less_1_iff)
  then show ?thesis by simp
qed

lemma round_to_double_normal:
  assumes lo: "2 powi (- 1022) \<le> x" and hi: "x \<le> 2 powi 1023"
  shows "\<exists>y. round_to_double x = Finite y \<and> \<bar>y - x\<bar> \<le> x / 2 ^ 53 \<and> 0 < y"
proof -
  have xpos: "0 < x" using lo pow2_pos [of "- 1022"] by linarith
  define e where "e = max (exponent_of x) (- 1022)"
  define ulp :: rat where "ulp = 2 powi (e - 52)"
  define m where "m = round_half_even (x / ulp)"
  define y :: rat where "y = of_int m * ulp"
  have upos: "0 < ulp" by (simp add: ulp_def)
  have "2 powi exponent_of x \<le> x" using exponent_of_bounds [OF xpos] by simp
  with lo have ex: "2 powi e \<le> x" by (simp add: e_def max_def)
  have "ulp = 2 powi e / 2 ^ 52" by (simp add: ulp_def pow2_diff)
  with ex have u: "ulp \<le> x / 2 ^ 52" by (simp add: divide_right_mono)
  have "\<bar>of_int m - x / ulp\<bar> \<le> 1 / 2" unfolding m_def by (rule round_half_even_error)
  then have "\<bar>of_int m - x / ulp\<bar> * ulp \<le> 1 / 2 * ulp"
    using upos by (simp add: mult_right_mono)
  moreover have "\<bar>of_int m - x / ulp\<bar> * ulp = \<bar>y - x\<bar>"
  proof -
    have "\<bar>of_int m - x / ulp\<bar> * ulp = \<bar>of_int m - x / ulp\<bar> * \<bar>ulp\<bar>"
      using upos by simp
    also have "\<dots> = \<bar>(of_int m - x / ulp) * ulp\<bar>" by (simp only: abs_mult)
    also have "(of_int m - x / ulp) * ulp = y - x"
      using upos by (simp add: y_def left_diff_distrib)
    finally show ?thesis .
  qed
  ultimately have "\<bar>y - x\<bar> \<le> ulp / 2" by simp
  with u have err: "\<bar>y - x\<bar> \<le> x / 2 ^ 53" by simp
  have ypos: "0 < y"
  proof -
    have "x / 2 ^ 53 < x" using xpos by simp
    with err show ?thesis by linarith
  qed
  have mne: "m \<noteq> 0" using ypos by (auto simp: y_def)
  have "y \<le> x + x / 2 ^ 53" using err by linarith
  also have "\<dots> \<le> 2 powi 1023 + 2 powi 1023 / 2 ^ 53"
    using hi by (simp add: add_mono divide_right_mono)
  also have "\<dots> < 2 powi 1024" by simp
  finally have nov: "\<not> 2 powi 1024 \<le> y" by simp
  have "round_to_double x = Finite y"
    using xpos nov mne
    by (simp add: round_to_double_def Let_def e_def [symmetric] ulp_def [symmetric]
        m_def [symmetric] y_def [symmetric] abs_of_pos)
  with err ypos show ?thesis by blast
qed

lemma round_to_double_eqI:
  assumes "2 powi e \<le> x" and "x < 2 powi (e + 1)" and "- 1022 \<le> e"
    and "\<bar>x / 2 powi (e - 52) - of_int m\<bar> < 1 / 2"
    and "of_int m * 2 powi (e - 52) < (2::rat) powi 1024" and "m \<noteq> 0"
  shows "round_to_double x = Finite (of_int m * 2 powi (e - 52))"
proof -
  have xpos: "0 < x" using assms(1) pow2_pos [of e] by linarith
  have e: "max (exponent_of x) (- 1022) = e"
    using exponent_of_unique [OF assms(1,2)] assms(3) by simp
  have m: "round_half_even (x / 2 powi (e - 52)) = m"
    by (rule round_half_even_eqI [OF assms(4)])
  show ?thesis
    using xpos assms(5,6)
    by (simp add: round_to_double_def Let_def abs_of_pos e m)
qed

lemma rel_bounds:
  fixes y z :: rat
  assumes "\<bar>y - z\<bar> \<le> z / 2 ^ 53"
  shows "z * (1 - 1 / 2 ^ 53) \<le> y" and "y \<le> z * (1 + 1 / 2 ^ 53)"
proof -
  from assms have "y - z \<le> z / 2 ^ 53" and "z - y \<le> z / 2 ^ 53" by linarith+
  then show "z * (1 - 1 / 2 ^ 53) \<le> y" and "y \<le> z * (1 + 1 / 2 ^ 53)"
    by (simp_all add: algebra_simps)
qed

lemma number_divide_normal:
  assumes "0 < x" and "0 < y" and "2 powi (- 1022) \<le> x / y" and "x / y \<le> 2 powi 1023"
  shows "\<exists>z. number_divide (Finite x) (Finite y) = Finite z
            \<and> (x / y) * (1 - 1 / 2 ^ 53) \<le> z \<and> z \<le> (x / y) * (1 + 1 / 2 ^ 53) \<and> 0 < z"
proof -
  from round_to_double_normal [OF assms(3,4)] obtain z
    where z: "round_to_double (x / y) = Finite z" "\<bar>z - x / y\<bar> \<le> x / y / 2 ^ 53" "0 < z"
    by blast
  have "number_divide (Finite x) (Finite y) = Finite z"
    using assms(1,2) z(1) by (simp add: number_divide_def is_infinite_def is_zero_def value_of_def)
  with rel_bounds [OF z(2)] z(3) show ?thesis by blast
qed

lemma number_multiply_normal:
  assumes "0 < x" and "0 < y" and "2 powi (- 1022) \<le> x * y" and "x * y \<le> 2 powi 1023"
  shows "\<exists>z. number_multiply (Finite x) (Finite y) = Finite z
            \<and> (x * y) * (1 - 1 / 2 ^ 53) \<le> z \<and> z \<le> (x * y) * (1 + 1 / 2 ^ 53) \<and> 0 < z"
proof -
  from round_to_double_normal [OF assms(3,4)] obtain z
    where z: "round_to_double (x * y) = Finite z" "\<bar>z - x * y\<bar> \<le> x * y / 2 ^ 53" "0 < z"
    by blast
  have "number_multiply (Finite x) (Finite y) = Finite z"
    using assms(1,2) z(1) by (simp add: number_multiply_def is_infinite_def is_zero_def value_of_def)
  with rel_bounds [OF z(2)] z(3) show ?thesis by blast
qed

subsection \<open>The quantities \<open>resampleAudio\<close> computes\<close>

lemma typedArrayGet_floor:
  assumes "0 \<le> p" and "p < of_nat (length a)"
  shows "typedArrayGet a (Math_floor (Finite p)) = Some (a ! nat \<lfloor>p\<rfloor>)"
proof -
  have "of_int \<lfloor>p\<rfloor> \<le> p" by linarith
  with assms have "(of_int \<lfloor>p\<rfloor> :: rat) < of_nat (length a)" by linarith
  moreover have "(0::rat) \<le> of_int \<lfloor>p\<rfloor>" using assms(1) by simp
  ultimately show ?thesis by (simp add: typedArrayGet_def Math_floor_def)
qed

lemma rel4:
  fixes s t w :: rat
  assumes "0 \<le> w"
    and "s * (1 - 1 / 2 ^ 53) \<le> t" and "t \<le> s * (1 + 1 / 2 ^ 53)"
    and "w * (1 - 1 / 2 ^ 53) \<le> t" and "t \<le> w * (1 + 1 / 2 ^ 53)"
  shows "\<bar>s - w\<bar> \<le> w / 2 ^ 51"
proof -
  have 1: "s * 9007199254740991 \<le> t * 9007199254740992"
    and 2: "t * 9007199254740992 \<le> s * 9007199254740993"
    and 3: "w * 9007199254740991 \<le> t * 9007199254740992"
    and 4: "t * 9007199254740992 \<le> w * 9007199254740993"
    using assms(2-5) by (simp_all add: algebra_simps)
  have "s * 2251799813685248 \<le> w * 2251799813685249" using 1 4 assms(1) by linarith
  moreover have "w * 2251799813685247 \<le> s * 2251799813685248" using 2 3 assms(1) by linarith
  ultimately have "\<bar>s - w\<bar> * 2251799813685248 \<le> w" by (simp add: abs_if algebra_simps)
  then show ?thesis by simp
qed

lemma rel4':
  fixes s t w :: rat
  assumes "0 \<le> w"
    and "w * (1 - 1 / 2 ^ 53) \<le> t" and "t \<le> w * (1 + 1 / 2 ^ 53)"
    and "t * (1 - 1 / 2 ^ 53) \<le> s" and "s \<le> t * (1 + 1 / 2 ^ 53)"
  shows "\<bar>s - w\<bar> \<le> w / 2 ^ 51"
proof -
  have 1: "w * 9007199254740991 \<le> t * 9007199254740992"
    and 2: "t * 9007199254740992 \<le> w * 9007199254740993"
    and 3: "t * 9007199254740991 \<le> s * 9007199254740992"
    and 4: "s * 9007199254740992 \<le> t * 9007199254740993"
    using assms(2-5) by (simp_all add: algebra_simps)
  have "s * 2251799813685248 \<le> w * 2251799813685249" using 2 4 assms(1) by linarith
  moreover have "w * 2251799813685247 \<le> s * 2251799813685248" using 1 3 assms(1) by linarith
  ultimately have "\<bar>s - w\<bar> * 2251799813685248 \<le> w" by (simp add: abs_if algebra_simps)
  then show ?thesis by simp
qed

lemma ratio_in_range:
  fixes a b :: rat
  assumes a: "0 < a" and b: "0 < b" and r1: "b \<le> 1024 * a" and r2: "a \<le> 1024 * b"
  shows "\<exists>r. number_divide (Finite a) (Finite b) = Finite r
     \<and> a * 9007199254740991 \<le> (r * b) * 9007199254740992
     \<and> (r * b) * 9007199254740992 \<le> a * 9007199254740993
     \<and> 1 / 2048 \<le> r \<and> r \<le> 2048"
proof -
  define R where "R = a / b"
  have Rlo: "1 / 1024 \<le> R" using r1 a b by (simp add: R_def field_simps)
  have Rhi: "R \<le> 1024" using r2 a b by (simp add: R_def field_simps)
  have "(2::rat) powi (- 1022) \<le> 1 / 1024" by simp
  with Rlo have lo: "2 powi (- 1022) \<le> a / b" unfolding R_def by linarith
  have "(1024::rat) \<le> 2 powi 1023" by simp
  with Rhi have hi: "a / b \<le> 2 powi 1023" unfolding R_def by linarith
  from number_divide_normal [OF a b lo hi] obtain r
    where r: "number_divide (Finite a) (Finite b) = Finite r"
      and rl: "R * (1 - 1 / 2 ^ 53) \<le> r" and rh: "r \<le> R * (1 + 1 / 2 ^ 53)" and rpos: "0 < r"
    unfolding R_def by blast
  have rl': "R * 9007199254740991 \<le> r * 9007199254740992"
    and rh': "r * 9007199254740992 \<le> R * 9007199254740993"
    using rl rh by (simp_all add: algebra_simps)
  have rlo: "1 / 2048 \<le> r" using rl' Rlo by linarith
  have rhi: "r \<le> 2048" using rh' Rhi by linarith
  have Rb: "R * b = a" using b by (simp add: R_def)
  have "(R * 9007199254740991) * b \<le> (r * 9007199254740992) * b"
    using rl' b by (simp only: mult_right_mono less_imp_le)
  then have 1: "a * 9007199254740991 \<le> (r * b) * 9007199254740992"
    using Rb by (simp add: algebra_simps)
  have "(r * 9007199254740992) * b \<le> (R * 9007199254740993) * b"
    using rh' b by (simp only: mult_right_mono less_imp_le)
  then have 2: "(r * b) * 9007199254740992 \<le> a * 9007199254740993"
    using Rb by (simp add: algebra_simps)
  from r 1 2 rlo rhi show ?thesis by blast
qed

lemma length_in_range:
  fixes r :: rat
  assumes rlo: "1 / 2048 \<le> r" and rhi: "r \<le> 2048" and len: "n < 2 ^ 32"
  shows "\<exists>q. number_divide (Finite (of_nat n)) (Finite r) = Finite q \<and> 0 \<le> q
     \<and> of_nat n * 9007199254740991 \<le> (q * r) * 9007199254740992
     \<and> (q * r) * 9007199254740992 \<le> of_nat n * 9007199254740993
     \<and> (n = 0 \<longrightarrow> q = 0)"
proof (cases "n = 0")
  case True
  have rpos: "0 < r" using rlo by linarith
  then have "number_divide (Finite (of_nat n)) (Finite r) = Finite 0"
    using True
    by (simp add: number_divide_def is_infinite_def is_zero_def negative_def signed_zero_def)
  with True show ?thesis by simp
next
  case False
  define L :: rat where "L = of_nat n"
  have rpos: "0 < r" using rlo by linarith
  have L1: "1 \<le> L" using False by (cases n) (simp_all add: L_def)
  then have Lpos: "0 < L" by linarith
  have "(of_nat n :: rat) < of_nat (2 ^ 32)" using len by (simp only: of_nat_less_iff)
  then have Lhi: "L < 4294967296" by (simp add: L_def)
  have "1 / 2048 \<le> L / r" using rpos rhi L1 by (simp add: field_simps)
  moreover have "(2::rat) powi (- 1022) \<le> 1 / 2048" by simp
  ultimately have lo: "2 powi (- 1022) \<le> L / r" by linarith
  have "L / r \<le> 8796093022208" using rpos rlo Lhi by (simp add: field_simps)
  moreover have "(8796093022208::rat) \<le> 2 powi 1023" by simp
  ultimately have hi: "L / r \<le> 2 powi 1023" by linarith
  from number_divide_normal [OF Lpos rpos lo hi] obtain q
    where q: "number_divide (Finite L) (Finite r) = Finite q"
      and ql: "(L / r) * (1 - 1 / 2 ^ 53) \<le> q" and qh: "q \<le> (L / r) * (1 + 1 / 2 ^ 53)"
      and qpos: "0 < q"
    by blast
  have 1: "L * 9007199254740991 \<le> (q * r) * 9007199254740992"
    using ql rpos by (simp add: field_simps)
  have 2: "(q * r) * 9007199254740992 \<le> L * 9007199254740993"
    using qh rpos by (simp add: field_simps)
  from q 1 2 qpos False show ?thesis unfolding L_def by auto
qed

lemma index_in_range:
  fixes r :: rat
  assumes rlo: "1 / 2048 \<le> r" and hi: "of_nat i * r \<le> 17179869184"
  shows "\<exists>p. number_multiply (Finite (of_nat i)) (Finite r) = Finite p \<and> 0 \<le> p
     \<and> (of_nat i * r) * 9007199254740991 \<le> p * 9007199254740992
     \<and> p * 9007199254740992 \<le> (of_nat i * r) * 9007199254740993"
proof (cases "i = 0")
  case True
  have rpos: "0 < r" using rlo by linarith
  then have "number_multiply (Finite (of_nat i)) (Finite r) = Finite 0"
    using True
    by (simp add: number_multiply_def is_infinite_def is_zero_def negative_def signed_zero_def)
  with True show ?thesis by simp
next
  case False
  define I :: rat where "I = of_nat i"
  have rpos: "0 < r" using rlo by linarith
  have I1: "1 \<le> I" using False by (cases i) (simp_all add: I_def)
  then have Ipos: "0 < I" by linarith
  have "r \<le> I * r" using I1 rpos by simp
  moreover have "(2::rat) powi (- 1022) \<le> 1 / 2048" by simp
  ultimately have lo: "2 powi (- 1022) \<le> I * r" using rlo by linarith
  have "(17179869184::rat) \<le> 2 powi 1023" by simp
  with hi have hi': "I * r \<le> 2 powi 1023" unfolding I_def by linarith
  from number_multiply_normal [OF Ipos rpos lo hi'] obtain p
    where p: "number_multiply (Finite I) (Finite r) = Finite p"
      and pl: "(I * r) * (1 - 1 / 2 ^ 53) \<le> p" and ph: "p \<le> (I * r) * (1 + 1 / 2 ^ 53)"
      and ppos: "0 < p"
    by blast
  have 1: "(I * r) * 9007199254740991 \<le> p * 9007199254740992"
    using pl by (simp add: algebra_simps)
  have 2: "p * 9007199254740992 \<le> (I * r) * 9007199254740993"
    using ph by (simp add: algebra_simps)
  from p 1 2 ppos show ?thesis unfolding I_def by auto
qed

lemma resampleAudio_in_range:
  fixes a b :: rat and audioData :: "'a list"
  assumes a: "0 < a" and b: "0 < b" and r1: "b \<le> 1024 * a" and r2: "a \<le> 1024 * b"
    and len: "length audioData < 2 ^ 32"
    and lim: "of_nat (length audioData) * b / a + 1 \<le> of_nat limit"
  shows "\<exists>q p. resampleAudio limit audioData (Finite a) (Finite b) =
            Inr (map (\<lambda>i. Some (audioData ! nat \<lfloor>p i\<rfloor>)) [0 ..< nat \<lfloor>q + 1 / 2\<rfloor>])
         \<and> 0 \<le> q
         \<and> \<bar>q * a - of_nat (length audioData) * b\<bar> \<le> of_nat (length audioData) * b / 2 ^ 51
         \<and> (\<forall>i < nat \<lfloor>q + 1 / 2\<rfloor>. 0 \<le> p i \<and> p i < of_nat (length audioData)
                \<and> \<bar>p i * b - of_nat i * a\<bar> \<le> of_nat i * a / 2 ^ 51)"
proof -
  define L :: rat where "L = of_nat (length audioData)"
  have L0: "0 \<le> L" by (simp add: L_def)
  have "(of_nat (length audioData) :: rat) < of_nat (2 ^ 32)" using len by (simp only: of_nat_less_iff)
  then have Lhi: "L < 4294967296" by (simp add: L_def)
  from ratio_in_range [OF a b r1 r2] obtain r
    where r: "number_divide (Finite a) (Finite b) = Finite r"
      and rb1: "a * 9007199254740991 \<le> (r * b) * 9007199254740992"
      and rb2: "(r * b) * 9007199254740992 \<le> a * 9007199254740993"
      and rlo: "1 / 2048 \<le> r" and rhi: "r \<le> 2048"
    by blast
  from length_in_range [OF rlo rhi len] obtain q
    where q: "number_divide (Finite L) (Finite r) = Finite q" and q0: "0 \<le> q"
      and qr1: "L * 9007199254740991 \<le> (q * r) * 9007199254740992"
      and qr2: "(q * r) * 9007199254740992 \<le> L * 9007199254740993"
    unfolding L_def by blast
  define N where "N = \<lfloor>q + 1 / 2\<rfloor>"
  have N0: "0 \<le> N" using q0 by (simp add: N_def)
  have Nq: "of_int N \<le> q + 1 / 2" unfolding N_def by linarith
  have mr: "Math_round (Finite q) = Finite (of_int N)"
    using q0 by (simp add: Math_round_def N_def)
  have qa: "\<bar>q * a - L * b\<bar> \<le> L * b / 2 ^ 51"
  proof (rule rel4 [where t = "q * (r * b)"])
    show "0 \<le> L * b" using L0 b by simp
    have "q * (a * 9007199254740991) \<le> q * ((r * b) * 9007199254740992)"
      using rb1 q0 by (rule mult_left_mono)
    then show "q * a * (1 - 1 / 2 ^ 53) \<le> q * (r * b)" by (simp add: algebra_simps)
    have "q * ((r * b) * 9007199254740992) \<le> q * (a * 9007199254740993)"
      using rb2 q0 by (rule mult_left_mono)
    then show "q * (r * b) \<le> q * a * (1 + 1 / 2 ^ 53)" by (simp add: algebra_simps)
    have "(L * 9007199254740991) * b \<le> ((q * r) * 9007199254740992) * b"
      using qr1 b by (simp only: mult_right_mono less_imp_le)
    then show "L * b * (1 - 1 / 2 ^ 53) \<le> q * (r * b)" by (simp add: algebra_simps)
    have "((q * r) * 9007199254740992) * b \<le> (L * 9007199254740993) * b"
      using qr2 b by (simp only: mult_right_mono less_imp_le)
    then show "q * (r * b) \<le> L * b * (1 + 1 / 2 ^ 53)" by (simp add: algebra_simps)
  qed
  define x where "x = L * b / a"
  have xa: "x * a = L * b" using a by (simp add: x_def)
  have "L * b \<le> L * (1024 * a)" using r1 L0 by (rule mult_left_mono)
  then have "x * a \<le> (1024 * L) * a" unfolding xa by (simp add: algebra_simps)
  then have x1: "x \<le> 1024 * L" using a by (simp only: mult_le_cancel_right_pos)
  have "q * a \<le> L * b + L * b / 2 ^ 51" using qa by linarith
  then have "q * a \<le> (x + x / 2 ^ 51) * a" unfolding xa [symmetric] by (simp add: algebra_simps)
  then have qx: "q \<le> x + x / 2 ^ 51" using a by (simp only: mult_le_cancel_right_pos)
  from qx have "q * 2251799813685248 \<le> x * 2251799813685249" by (simp add: algebra_simps)
  then have Nx: "of_int N < x + 1" using Nq x1 Lhi by linarith
  with x1 Lhi have "(of_int N :: rat) < of_int 9007199254740991" by simp
  then have Nmax: "N < 9007199254740991" by (simp only: of_int_less_iff)
  from Nx lim have "(of_int N :: rat) < of_nat limit" unfolding x_def L_def by linarith
  then have "(of_int N :: rat) < of_int (int limit)" by simp
  then have Nlim: "N < int limit" by (simp only: of_int_less_iff)
  have nf: "new_Float32Array limit (Finite (of_int N)) = Inr (nat N)"
    using N0 Nlim Nmax by (simp add: new_Float32Array_def Let_def)
  define p where "p i = value_of (number_multiply (Finite (of_nat i)) (Finite r))" for i
  have el: "number_multiply (Finite (of_nat i)) (Finite r) = Finite (p i) \<and> 0 \<le> p i \<and> p i < L
      \<and> \<bar>p i * b - of_nat i * a\<bar> \<le> of_nat i * a / 2 ^ 51" if "i < nat N" for i
  proof -
    define I :: rat where "I = of_nat i"
    have I0: "0 \<le> I" by (simp add: I_def)
    from that have "int i + 1 \<le> N" by simp
    then have "(of_int (int i + 1) :: rat) \<le> of_int N" by (simp only: of_int_le_iff)
    then have "I + 1 \<le> of_int N" by (simp add: I_def)
    with Nq have Iq: "I \<le> q - 1 / 2" by linarith
    have rpos: "0 < r" using rlo by linarith
    have "I * r \<le> (q - 1 / 2) * r" using Iq rpos by (simp only: mult_right_mono less_imp_le)
    then have ir: "I * r \<le> q * r - r / 2" by (simp add: algebra_simps)
    then have "I * r \<le> 17179869184" using qr2 Lhi rpos by linarith
    from index_in_range [OF rlo this [unfolded I_def]] obtain z
      where z: "number_multiply (Finite (of_nat i)) (Finite r) = Finite z" and z0: "0 \<le> z"
        and z1: "(I * r) * 9007199254740991 \<le> z * 9007199254740992"
        and z2: "z * 9007199254740992 \<le> (I * r) * 9007199254740993"
      unfolding I_def by blast
    have pz: "p i = z" by (simp add: p_def z value_of_def)
    have zL: "z < L" using z2 ir qr2 rlo Lhi by linarith
    have pos: "\<bar>z * b - I * a\<bar> \<le> I * a / 2 ^ 51"
    proof (rule rel4' [where t = "I * (r * b)"])
      show "0 \<le> I * a" using I0 a by simp
      have "I * (a * 9007199254740991) \<le> I * ((r * b) * 9007199254740992)"
        using rb1 I0 by (rule mult_left_mono)
      then show "I * a * (1 - 1 / 2 ^ 53) \<le> I * (r * b)" by (simp add: algebra_simps)
      have "I * ((r * b) * 9007199254740992) \<le> I * (a * 9007199254740993)"
        using rb2 I0 by (rule mult_left_mono)
      then show "I * (r * b) \<le> I * a * (1 + 1 / 2 ^ 53)" by (simp add: algebra_simps)
      have "((I * r) * 9007199254740991) * b \<le> (z * 9007199254740992) * b"
        using z1 b by (simp only: mult_right_mono less_imp_le)
      then show "I * (r * b) * (1 - 1 / 2 ^ 53) \<le> z * b" by (simp add: algebra_simps)
      have "(z * 9007199254740992) * b \<le> ((I * r) * 9007199254740993) * b"
        using z2 b by (simp only: mult_right_mono less_imp_le)
      then show "z * b \<le> I * (r * b) * (1 + 1 / 2 ^ 53)" by (simp add: algebra_simps)
    qed
    from z z0 zL pos show ?thesis unfolding pz I_def by simp
  qed
  have "map (\<lambda>i. typedArrayGet audioData (Math_floor (number_multiply (Finite (of_nat i)) (Finite r))))
          [0 ..< nat N]
        = map (\<lambda>i. Some (audioData ! nat \<lfloor>p i\<rfloor>)) [0 ..< nat N]"
  proof (rule map_cong [OF refl])
    fix i assume "i \<in> set [0 ..< nat N]"
    then have "i < nat N" by simp
    from el [OF this] typedArrayGet_floor [of "p i" audioData]
    show "typedArrayGet audioData (Math_floor (number_multiply (Finite (of_nat i)) (Finite r)))
            = Some (audioData ! nat \<lfloor>p i\<rfloor>)"
      by (simp add: L_def)
  qed
  then have res: "resampleAudio limit audioData (Finite a) (Finite b) =
      Inr (map (\<lambda>i. Some (audioData ! nat \<lfloor>p i\<rfloor>)) [0 ..< nat \<lfloor>q + 1 / 2\<rfloor>])"
    using r q mr nf by (simp add: resampleAudio_def Let_def L_def N_def)
  from res q0 qa el show ?thesis unfolding L_def N_def by blast
qed

lemma length_against_exact:
  fixes q x :: rat
  assumes "0 \<le> x" and "x \<le> 4398046511104" and "\<bar>q - x\<bar> \<le> x / 2 ^ 51"
  shows "\<bar>\<lfloor>q + 1 / 2\<rfloor> - \<lfloor>x + 1 / 2\<rfloor>\<bar> \<le> 1"
    and "\<lfloor>x + 1 / 2 - x / 2 ^ 51\<rfloor> = \<lfloor>x + 1 / 2 + x / 2 ^ 51\<rfloor> \<Longrightarrow> \<lfloor>q + 1 / 2\<rfloor> = \<lfloor>x + 1 / 2\<rfloor>"
proof -
  from assms(3) have lo: "x + 1 / 2 - x / 2 ^ 51 \<le> q + 1 / 2" and hi: "q + 1 / 2 \<le> x + 1 / 2 + x / 2 ^ 51"
    by linarith+
  have d: "x / 2 ^ 51 < 1" using assms(2) by simp
  define y where "y = x + 1 / 2"
  have "q + 1 / 2 \<le> y + 1" using hi d unfolding y_def by linarith
  then have "\<lfloor>q + 1 / 2\<rfloor> \<le> \<lfloor>y + 1\<rfloor>" by (rule floor_mono)
  then have 1: "\<lfloor>q + 1 / 2\<rfloor> \<le> \<lfloor>x + 1 / 2\<rfloor> + 1" unfolding y_def [symmetric] by simp
  have "y - 1 \<le> q + 1 / 2" using lo d unfolding y_def by linarith
  then have "\<lfloor>y - 1\<rfloor> \<le> \<lfloor>q + 1 / 2\<rfloor>" by (rule floor_mono)
  then have 2: "\<lfloor>x + 1 / 2\<rfloor> - 1 \<le> \<lfloor>q + 1 / 2\<rfloor>" unfolding y_def [symmetric] by simp
  from 1 2 show "\<bar>\<lfloor>q + 1 / 2\<rfloor> - \<lfloor>x + 1 / 2\<rfloor>\<bar> \<le> 1" by linarith
  assume eq: "\<lfloor>x + 1 / 2 - x / 2 ^ 51\<rfloor> = \<lfloor>x + 1 / 2 + x / 2 ^ 51\<rfloor>"
  have a: "\<lfloor>x + 1 / 2 - x / 2 ^ 51\<rfloor> \<le> \<lfloor>q + 1 / 2\<rfloor>" using lo by (rule floor_mono)
  have b: "\<lfloor>q + 1 / 2\<rfloor> \<le> \<lfloor>x + 1 / 2 + x / 2 ^ 51\<rfloor>" using hi by (rule floor_mono)
  have "0 \<le> x / 2 ^ 51" using assms(1) by simp
  then have "x + 1 / 2 - x / 2 ^ 51 \<le> x + 1 / 2" and "x + 1 / 2 \<le> x + 1 / 2 + x / 2 ^ 51" by linarith+
  then have c: "\<lfloor>x + 1 / 2 - x / 2 ^ 51\<rfloor> \<le> \<lfloor>x + 1 / 2\<rfloor>" and d: "\<lfloor>x + 1 / 2\<rfloor> \<le> \<lfloor>x + 1 / 2 + x / 2 ^ 51\<rfloor>"
    by (simp_all only: floor_mono)
  from a b c d eq show "\<lfloor>q + 1 / 2\<rfloor> = \<lfloor>x + 1 / 2\<rfloor>" by linarith
qed

lemma resampleAudio_described:
  fixes a b :: rat and audioData :: "'a list"
  assumes a: "0 < a" and b: "0 < b" and r1: "b \<le> 1024 * a" and r2: "a \<le> 1024 * b"
    and len: "length audioData < 2 ^ 32"
    and lim: "of_nat (length audioData) * b / a + 1 \<le> of_nat limit"
  shows "\<exists>q p. resampleAudio limit audioData (Finite a) (Finite b) =
            Inr (map (\<lambda>i. Some (audioData ! nat \<lfloor>p i\<rfloor>)) [0 ..< nat \<lfloor>q + 1 / 2\<rfloor>])
         \<and> 0 \<le> q
         \<and> \<bar>q - of_nat (length audioData) * b / a\<bar> \<le> of_nat (length audioData) * b / a / 2 ^ 51
         \<and> of_nat (length audioData) * b / a \<le> 4398046511104
         \<and> (\<forall>i < nat \<lfloor>q + 1 / 2\<rfloor>. 0 \<le> p i \<and> p i < of_nat (length audioData)
                \<and> \<bar>p i - of_nat i * a / b\<bar> \<le> of_nat i * a / b / 2 ^ 51)"
proof -
  from resampleAudio_in_range [OF assms] obtain q p
    where res: "resampleAudio limit audioData (Finite a) (Finite b) =
            Inr (map (\<lambda>i. Some (audioData ! nat \<lfloor>p i\<rfloor>)) [0 ..< nat \<lfloor>q + 1 / 2\<rfloor>])"
      and q0: "0 \<le> q"
      and qa: "\<bar>q * a - of_nat (length audioData) * b\<bar> \<le> of_nat (length audioData) * b / 2 ^ 51"
      and el: "\<forall>i < nat \<lfloor>q + 1 / 2\<rfloor>. 0 \<le> p i \<and> p i < of_nat (length audioData)
                \<and> \<bar>p i * b - of_nat i * a\<bar> \<le> of_nat i * a / 2 ^ 51"
    by blast
  define L :: rat where "L = of_nat (length audioData)"
  have div_abs: "\<bar>s - w / c\<bar> \<le> w / c / 2 ^ 51" if "\<bar>s * c - w\<bar> \<le> w / 2 ^ 51" and "0 < c"
    for s w c :: rat
  proof -
    have "\<bar>s - w / c\<bar> * c = \<bar>s - w / c\<bar> * \<bar>c\<bar>" using that(2) by simp
    also have "\<dots> = \<bar>(s - w / c) * c\<bar>" by (simp only: abs_mult)
    also have "(s - w / c) * c = s * c - w" using that(2) by (simp add: left_diff_distrib)
    finally have "\<bar>s - w / c\<bar> * c \<le> (w / c / 2 ^ 51) * c" using that by simp
    then show ?thesis using that(2) by (simp only: mult_le_cancel_right_pos)
  qed
  have q': "\<bar>q - L * b / a\<bar> \<le> L * b / a / 2 ^ 51"
    using div_abs [OF qa [folded L_def] a] .
  have L0: "0 \<le> L" by (simp add: L_def)
  have "(of_nat (length audioData) :: rat) < of_nat (2 ^ 32)" using len by (simp only: of_nat_less_iff)
  then have Lhi: "L < 4294967296" by (simp add: L_def)
  have "L * b \<le> L * (1024 * a)" using r1 L0 by (rule mult_left_mono)
  then have "L * b / a \<le> L * (1024 * a) / a" using a by (simp only: divide_right_mono less_imp_le)
  then have "L * b / a \<le> 1024 * L" using a by simp
  with Lhi have x: "L * b / a \<le> 4398046511104" by linarith
  have el': "\<forall>i < nat \<lfloor>q + 1 / 2\<rfloor>. 0 \<le> p i \<and> p i < L
                \<and> \<bar>p i - of_nat i * a / b\<bar> \<le> of_nat i * a / b / 2 ^ 51"
    using el div_abs [OF _ b] unfolding L_def by blast
  from res q0 q' x el' show ?thesis unfolding L_def by blast
qed

subsection \<open>What \<open>resampleAudio\<close> returns\<close>

lemma floor_rat_numeral_quotient [simp]:
  "\<lfloor>numeral a / numeral b :: rat\<rfloor> = numeral a div numeral b"
  using floor_divide_of_int_eq [of "numeral a" "numeral b", where ?'a = rat] by simp

lemma floor_rat_neg_numeral_quotient [simp]:
  "\<lfloor>- (numeral a / numeral b) :: rat\<rfloor> = - numeral a div numeral b"
  using floor_divide_of_int_eq [of "- numeral a" "numeral b", where ?'a = rat] by simp

text \<open>
  C10, amended. For source and target rates within a factor of 1024 of each other, fewer than
  \<open>2 ^ 32\<close> samples, and an engine that can allocate one element more than the exact
  quotient \<open>L * toSampleRate / fromSampleRate\<close>, \<open>resampleAudio\<close> returns an array,
  and every element of it is a sample read inside the bounds of the input. Its length
  is \<open>Math.round\<close> of a quotient computed in doubles: it differs from
  \<open>round(L * toSampleRate / fromSampleRate)\<close> by at most one, and not at all unless
  the exact quotient is within the relative distance \<open>2 ^ - 51\<close> of a point where the
  rounding changes.
\<close>

theorem resampleAudio_in_bounds:
  fixes a b :: rat and audioData :: "'a list"
  assumes "0 < a" and "0 < b" and "b \<le> 1024 * a" and "a \<le> 1024 * b"
    and "length audioData < 2 ^ 32"
    and "of_nat (length audioData) * b / a + 1 \<le> of_nat limit"
  shows "\<exists>out. resampleAudio limit audioData (Finite a) (Finite b) = Inr out
     \<and> (\<forall>i<length out. \<exists>k<length audioData. out ! i = Some (audioData ! k))
     \<and> \<bar>int (length out) - spec_length (length audioData) a b\<bar> \<le> 1
     \<and> (\<lfloor>of_nat (length audioData) * b / a + 1 / 2 - of_nat (length audioData) * b / a / 2 ^ 51\<rfloor>
          = \<lfloor>of_nat (length audioData) * b / a + 1 / 2 + of_nat (length audioData) * b / a / 2 ^ 51\<rfloor>
        \<longrightarrow> int (length out) = spec_length (length audioData) a b)"
proof -
  define x :: rat where "x = of_nat (length audioData) * b / a"
  from resampleAudio_described [OF assms] obtain q p
    where res: "resampleAudio limit audioData (Finite a) (Finite b) =
            Inr (map (\<lambda>i. Some (audioData ! nat \<lfloor>p i\<rfloor>)) [0 ..< nat \<lfloor>q + 1 / 2\<rfloor>])"
      and q0: "0 \<le> q" and qx: "\<bar>q - x\<bar> \<le> x / 2 ^ 51" and xhi: "x \<le> 4398046511104"
      and el: "\<forall>i < nat \<lfloor>q + 1 / 2\<rfloor>. 0 \<le> p i \<and> p i < of_nat (length audioData)
                \<and> \<bar>p i - of_nat i * a / b\<bar> \<le> of_nat i * a / b / 2 ^ 51"
    unfolding x_def by blast
  define out where "out = map (\<lambda>i. Some (audioData ! nat \<lfloor>p i\<rfloor>)) [0 ..< nat \<lfloor>q + 1 / 2\<rfloor>]"
  have x0: "0 \<le> x" using assms(1,2) by (simp add: x_def)
  have N0: "0 \<le> \<lfloor>q + 1 / 2\<rfloor>" using q0 by simp
  have lo: "int (length out) = \<lfloor>q + 1 / 2\<rfloor>" using N0 by (simp add: out_def)
  have inb: "\<forall>i<length out. \<exists>k<length audioData. out ! i = Some (audioData ! k)"
  proof (intro allI impI)
    fix i assume "i < length out"
    then have i: "i < nat \<lfloor>q + 1 / 2\<rfloor>" by (simp add: out_def)
    with el have p: "0 \<le> p i" "p i < of_nat (length audioData)" by simp_all
    from p(2) have fl: "\<lfloor>p i\<rfloor> < int (length audioData)" by (simp add: floor_less_iff)
    have f0: "0 \<le> \<lfloor>p i\<rfloor>" using p(1) by simp
    have "nat \<lfloor>p i\<rfloor> < length audioData" using fl f0 by (simp only: nat_less_iff)
    moreover have "out ! i = Some (audioData ! nat \<lfloor>p i\<rfloor>)" using i by (simp add: out_def)
    ultimately show "\<exists>k<length audioData. out ! i = Some (audioData ! k)" by blast
  qed
  note la = length_against_exact [OF x0 xhi qx, folded lo]
  have r: "resampleAudio limit audioData (Finite a) (Finite b) = Inr out"
    using res by (simp add: out_def)
  have l1: "\<bar>int (length out) - spec_length (length audioData) a b\<bar> \<le> 1"
    using la(1) by (simp add: spec_length_def x_def)
  have l2: "\<lfloor>of_nat (length audioData) * b / a + 1 / 2 - of_nat (length audioData) * b / a / 2 ^ 51\<rfloor>
          = \<lfloor>of_nat (length audioData) * b / a + 1 / 2 + of_nat (length audioData) * b / a / 2 ^ 51\<rfloor>
        \<longrightarrow> int (length out) = spec_length (length audioData) a b"
    using la(2) by (simp add: spec_length_def x_def)
  show ?thesis by (rule exI [of _ out]) (intro conjI r inb l1 l2)
qed

theorem resampleAudio_in_bounds_witness:
  "\<exists>out. resampleAudio 1000 (replicate 100 (0::rat)) (Finite 48000) (Finite 16000) = Inr out
      \<and> length out = 33 \<and> out ! 32 = Some 0"
proof -
  have "of_nat (length (replicate 100 (0::rat))) * 16000 / 48000 + 1 \<le> (of_nat 1000 :: rat)"
    by simp
  from resampleAudio_in_bounds [of 48000 16000 "replicate 100 (0::rat)" 1000, OF _ _ _ _ _ this]
  obtain out where res: "resampleAudio 1000 (replicate 100 (0::rat)) (Finite 48000) (Finite 16000) = Inr out"
    and inb: "\<forall>i<length out. \<exists>k<length (replicate 100 (0::rat)). out ! i = Some (replicate 100 (0::rat) ! k)"
    and len: "int (length out) = spec_length (length (replicate 100 (0::rat))) 48000 16000"
    by (auto simp: spec_length_def)
  have l: "length out = 33" using len by (simp add: spec_length_def)
  with inb have "\<exists>k<length (replicate 100 (0::rat)). out ! 32 = Some (replicate 100 (0::rat) ! k)"
    by simp
  then have "out ! 32 = Some 0" by auto
  with res l show ?thesis by blast
qed



subsection \<open>Evaluations\<close>

lemma double_14_25:
  "round_to_double (14 / 25) = Finite (5044031582654956 * 2 powi (- 53))"
  using round_to_double_eqI [of "- 1" "14 / 25" 5044031582654956] by simp

lemma double_7_by_ratio:
  "round_to_double (7 / (5044031582654956 * 2 powi (- 53))) = Finite (7036874417766399 * 2 powi (- 49))"
  using round_to_double_eqI [of 3 "7 / (5044031582654956 * 2 powi (- 53))" 7036874417766399] by simp

lemma double_29_50:
  "round_to_double (29 / 50) = Finite (5224175567749775 * 2 powi (- 53))"
  using round_to_double_eqI [of "- 1" "29 / 50" 5224175567749775] by simp

lemma double_50_by_ratio:
  "round_to_double (50 * (5224175567749775 * 2 powi (- 53))) = Finite (8162774324609023 * 2 powi (- 48))"
  using round_to_double_eqI [of 4 "50 * (5224175567749775 * 2 powi (- 53))" 8162774324609023] by simp




lemmas number_eval = number_divide_def number_multiply_def is_infinite_def is_zero_def
  negative_def value_of_def signed_zero_def signed_infinity_def Math_round_def Math_floor_def
  new_Float32Array_def typedArrayGet_def

text \<open>
  C10, as stated, fails for 7 samples at 8960 Hz: the ratio 0.56 is not a double, the
  quotient of 7 by the double next to it is just below 12.5, and the array has 12
  elements where \<open>round(7 * 16000 / 8960)\<close> is 13.
\<close>

theorem resampleAudio_length_not_exact_rounding:
  "\<not> isl (resampleAudio 1000 (replicate 7 (0::rat)) (Finite 8960) (Finite 16000))
   \<and> length (projr (resampleAudio 1000 (replicate 7 (0::rat)) (Finite 8960) (Finite 16000))) = 12
   \<and> spec_length 7 8960 16000 = 13"
proof -
  have r: "number_divide (Finite 8960) (Finite 16000) = Finite (5044031582654956 * 2 powi (- 53))"
    using double_14_25 by (simp add: number_eval)
  have q: "number_divide (Finite 7) (Finite (5044031582654956 * 2 powi (- 53)))
             = Finite (7036874417766399 * 2 powi (- 49))"
    using double_7_by_ratio by (simp add: number_eval)
  have n: "new_Float32Array 1000 (Math_round (Finite (7036874417766399 * 2 powi (- 49)))) = Inr 12"
    by (simp add: number_eval)
  have "resampleAudio 1000 (replicate 7 (0::rat)) (Finite 8960) (Finite 16000) =
      Inr (map (\<lambda>i. typedArrayGet (replicate 7 (0::rat))
                (Math_floor (number_multiply (Finite (of_nat i))
                   (Finite (5044031582654956 * 2 powi (- 53))))))
             [0 ..< 12])"
    unfolding resampleAudio_def Let_def r by (simp only: length_replicate of_nat_numeral q n sum.case)
  then show ?thesis by (simp add: spec_length_def)
qed

text \<open>
  The index read can also differ from the floor of the exact position: at 9280 Hz output
  element 50 is source sample 28, although \<open>50 * 0.58\<close> is exactly 29.
\<close>

lemma resampleAudio_index_example:
  "number_divide (Finite 9280) (Finite 16000) = Finite (5224175567749775 * 2 powi (- 53))
   \<and> Math_floor (number_multiply (Finite 50) (Finite (5224175567749775 * 2 powi (- 53)))) = Finite 28
   \<and> \<lfloor>50 * (9280 / 16000 :: rat)\<rfloor> = 29"
proof -
  have r: "number_divide (Finite 9280) (Finite 16000) = Finite (5224175567749775 * 2 powi (- 53))"
    using double_29_50 by (simp add: number_eval)
  have p: "number_multiply (Finite 50) (Finite (5224175567749775 * 2 powi (- 53)))
             = Finite (8162774324609023 * 2 powi (- 48))"
    using double_50_by_ratio by (simp add: number_eval)
  show ?thesis unfolding r p by (simp add: Math_floor_def)
qed


section \<open>Loading the model is single-flight\<close>

lemma single_flight_new: "\<not> isModelLoading s \<Longrightarrow> single_flight (new_loader s)"
  by (simp add: single_flight_def new_loader_def)

lemma single_flight_call:
  "single_flight st \<Longrightarrow> single_flight (loadModel_call m caller st)"
  by (auto simp: single_flight_def loadModel_call_def)

lemma one_entry:
  assumes "length al \<le> 1" and "map_of al k = Some v"
  shows "al = [(k, v)]"
proof (cases al)
  case Nil
  with assms show ?thesis by simp
next
  case (Cons a rest)
  with assms have "rest = []" by simp
  with Cons assms show ?thesis by (cases a) (auto split: if_splits)
qed

lemma single_flight_resume:
  assumes "single_flight st" and "map_of (loading st) caller = Some pt"
  shows "single_flight (loadModel_resume modelId caller pt outcome st)"
proof -
  from assms have l: "loading st = [(caller, pt)]"
    by (auto simp: single_flight_def intro: one_entry)
  show ?thesis
    using assms(1) l
    by (cases "(modelId, caller, pt, outcome, st)" rule: loadModel_resume.cases)
       (auto simp: single_flight_def loadModel_catch_def AList.delete_eq)
qed

lemma single_flight_step:
  assumes "single_flight st" and "load_step m modelId e st = Some st'"
  shows "single_flight st'"
proof (cases e)
  case (LoadModelCalled caller)
  with assms show ?thesis by (auto intro: single_flight_call)
next
  case (LoadSettled caller outcome)
  with assms show ?thesis by (auto split: option.splits intro: single_flight_resume)
next
  case TranscriberCleared
  with assms show ?thesis by (auto simp: single_flight_def)
qed

lemma single_flight_run:
  "single_flight st \<Longrightarrow> load_run m modelId es st = Some st' \<Longrightarrow> single_flight st'"
proof (induction es arbitrary: st)
  case Nil
  then show ?case by simp
next
  case (Cons e es)
  then show ?case by (auto split: option.splits dest: single_flight_step)
qed

text \<open>
  C3, amended. In every state reachable from a fresh plugin at most one download/load
  sequence is in flight, and \<open>isModelLoading\<close> is set exactly while one is. A
  \<open>loadModel\<close> call arriving meanwhile starts nothing: it returns \<open>false\<close> at once and
  changes nothing else; it neither waits for the attempt in flight nor learns its outcome.
\<close>

theorem loadModel_single_flight:
  assumes "load_run isMobilePlatform modelId es (new_loader fresh_plugin) = Some st"
  shows "length (loading st) \<le> 1
     \<and> (isModelLoading (owner st) \<longleftrightarrow> loading st \<noteq> [])
     \<and> (loading st \<noteq> [] \<longrightarrow>
          loadModel_call isMobilePlatform caller st =
            st\<lparr>returned := returned st @ [(caller, False)]\<rparr>)"
proof -
  have "single_flight (new_loader fresh_plugin)"
    by (rule single_flight_new) (simp add: fresh_plugin_def)
  from single_flight_run [OF this assms] show ?thesis
    by (auto simp: single_flight_def loadModel_call_def)
qed

theorem loadModel_single_flight_witness:
  "load_run False ''Xenova/whisper-base.en'' [LoadModelCalled 1] (new_loader fresh_plugin)
     = Some loading_desktop
   \<and> loading loading_desktop = [(1, AwaitInitialize)]
   \<and> isModelLoading (owner loading_desktop)
   \<and> loadModel_call False 2 loading_desktop = loading_desktop\<lparr>returned := [(2, False)]\<rparr>"
proof -
  have r: "load_run False ''Xenova/whisper-base.en'' [LoadModelCalled 1] (new_loader fresh_plugin)
     = Some loading_desktop"
    by (simp add: loadModel_call_def new_loader_def fresh_plugin_def loading_desktop_def)
  have l: "loading loading_desktop = [(1, AwaitInitialize)]" by (simp add: loading_desktop_def)
  have e: "returned loading_desktop = []" by (simp add: loading_desktop_def)
  from loadModel_single_flight [OF r, of 2] l e
  have "isModelLoading (owner loading_desktop)"
    and "loadModel_call False 2 loading_desktop = loading_desktop\<lparr>returned := [(2, False)]\<rparr>"
    by simp_all
  with r l show ?thesis by blast
qed

text \<open>
  C3, as stated, fails in its last part: caller 2 arrives while caller 1's load is in
  flight and is answered \<open>false\<close> before that load settles; the load then succeeds and
  caller 1 is answered \<open>true\<close>.
\<close>

theorem second_loadModel_caller_does_not_wait:
  "load_run False ''Xenova/whisper-base.en''
      [LoadModelCalled 1, LoadModelCalled 2, LoadSettled 1 Resolved] (new_loader fresh_plugin)
     = Some \<lparr>owner = fresh_plugin\<lparr>transcriber := Some DesktopEngine\<rparr>, loading = [],
             returned = [(2, False), (1, True)], loadsStarted = 1\<rparr>"
  by (simp add: loadModel_call_def new_loader_def fresh_plugin_def AList.delete_eq)

section \<open>The layout of the WAV file\<close>

lemma u32_bytes:
  fixes v :: nat
  assumes "v < 2 ^ 32"
  shows "v mod 2 ^ 8 + 2 ^ 8 * (v div 2 ^ 8 mod 2 ^ 8) + 2 ^ 16 * (v div 2 ^ 16 mod 2 ^ 8)
         + 2 ^ 24 * (v div 2 ^ 24 mod 2 ^ 8) = v"
proof -
  define a where "a = v div 2 ^ 8"
  define b where "b = a div 2 ^ 8"
  define c where "c = b div 2 ^ 8"
  have b: "v div 2 ^ 16 = b" unfolding b_def a_def by (simp add: div_mult2_eq [symmetric])
  have c: "v div 2 ^ 24 = c" unfolding c_def b_def a_def by (simp add: div_mult2_eq [symmetric])
  have "c < 2 ^ 8" using assms unfolding c [symmetric] by simp
  then have c8: "c mod 2 ^ 8 = c" by simp
  have 1: "v = v mod 2 ^ 8 + 2 ^ 8 * a" unfolding a_def by simp
  have 2: "a = a mod 2 ^ 8 + 2 ^ 8 * b" unfolding b_def by simp
  have 3: "b = b mod 2 ^ 8 + 2 ^ 8 * c" unfolding c_def by simp
  have "v mod 2 ^ 8 + 2 ^ 8 * (a mod 2 ^ 8) + 2 ^ 16 * (b mod 2 ^ 8) + 2 ^ 24 * c
        = v mod 2 ^ 8 + 2 ^ 8 * (a mod 2 ^ 8 + 2 ^ 8 * (b mod 2 ^ 8 + 2 ^ 8 * c))"
    by simp
  also have "\<dots> = v" using 1 2 3 by simp
  finally show ?thesis unfolding b c c8 a_def [symmetric] .
qed

lemma u16_bytes:
  fixes v :: nat
  assumes "v < 2 ^ 16"
  shows "v mod 2 ^ 8 + 2 ^ 8 * (v div 2 ^ 8 mod 2 ^ 8) = v"
proof -
  have "v div 2 ^ 8 < 2 ^ 8" using assms by simp
  then have "v div 2 ^ 8 mod 2 ^ 8 = v div 2 ^ 8" by simp
  then show ?thesis by simp
qed

lemma s16_bytes:
  fixes v :: int
  assumes "- (2 ^ 15) \<le> v" and "v < 2 ^ 15"
  shows "(let u = v mod 2 ^ 8 + 2 ^ 8 * (v div 2 ^ 8 mod 2 ^ 8)
          in if 2 ^ 15 \<le> u then u - 2 ^ 16 else u) = v"
proof (cases "0 \<le> v")
  case True
  then have "0 \<le> v div 2 ^ 8" "v div 2 ^ 8 < 2 ^ 8" using assms by simp_all
  then have "v div 2 ^ 8 mod 2 ^ 8 = v div 2 ^ 8" by simp
  then have "v mod 2 ^ 8 + 2 ^ 8 * (v div 2 ^ 8 mod 2 ^ 8) = v" by simp
  then show ?thesis using assms by (simp add: Let_def)
next
  case False
  then have lo: "- (2 ^ 7) \<le> v div 2 ^ 8" and hi: "v div 2 ^ 8 < 0" using assms by simp_all
  have "(v div 2 ^ 8 + 2 ^ 8) mod 2 ^ 8 = v div 2 ^ 8 + 2 ^ 8"
    using lo hi by (intro mod_pos_pos_trivial) simp_all
  then have "v div 2 ^ 8 mod 2 ^ 8 = v div 2 ^ 8 + 2 ^ 8" by simp
  then have "v mod 2 ^ 8 + 2 ^ 8 * (v div 2 ^ 8 mod 2 ^ 8) = v + 2 ^ 16"
    by (simp add: algebra_simps)
  then show ?thesis using False assms by (simp add: Let_def)
qed

lemma unat_byte_of_nat: "unat (of_nat n :: byte) = n mod 2 ^ 8"
  by (simp add: unat_of_nat)

lemma uint_byte_of_int: "uint (of_int k :: byte) = k mod 2 ^ 8"
  by (simp add: uint_word_of_int)

lemma read_written_u32:
  assumes "v < 2 ^ 32" and "offset + 4 \<le> length buf"
  shows "readUInt32LE (buf[offset := of_nat v, offset + 1 := of_nat (v div 2 ^ 8),
            offset + 2 := of_nat (v div 2 ^ 16), offset + 3 := of_nat (v div 2 ^ 24)]) offset = v"
proof -
  let ?b = "buf[offset := of_nat v, offset + 1 := of_nat (v div 2 ^ 8),
            offset + 2 := of_nat (v div 2 ^ 16), offset + 3 := of_nat (v div 2 ^ 24)]"
  have nth: "?b ! offset = of_nat v" "?b ! (offset + 1) = of_nat (v div 2 ^ 8)"
    "?b ! (offset + 2) = of_nat (v div 2 ^ 16)" "?b ! (offset + 3) = of_nat (v div 2 ^ 24)"
    using assms(2) by simp_all
  show ?thesis
    unfolding readUInt32LE_def nth unat_byte_of_nat by (rule u32_bytes [OF assms(1)])
qed

lemma read_written_u16:
  assumes "v < 2 ^ 16" and "offset + 2 \<le> length buf"
  shows "readUInt16LE (buf[offset := of_nat v, offset + 1 := of_nat (v div 2 ^ 8)]) offset = v"
proof -
  let ?b = "buf[offset := of_nat v, offset + 1 := of_nat (v div 2 ^ 8)]"
  have nth: "?b ! offset = of_nat v" "?b ! (offset + 1) = of_nat (v div 2 ^ 8)"
    using assms(2) by simp_all
  show ?thesis
    unfolding readUInt16LE_def nth unat_byte_of_nat by (rule u16_bytes [OF assms(1)])
qed

lemma read_written_s16:
  assumes "- (2 ^ 15) \<le> v" and "v < 2 ^ 15" and "offset + 2 \<le> length buf"
  shows "readInt16LE (buf[offset := of_int v, offset + 1 := of_int (v div 2 ^ 8)]) offset = v"
proof -
  let ?b = "buf[offset := of_int v, offset + 1 := of_int (v div 2 ^ 8)]"
  have nth: "?b ! offset = of_int v" "?b ! (offset + 1) = of_int (v div 2 ^ 8)"
    using assms(3) by simp_all
  show ?thesis
    unfolding readInt16LE_def nth uint_byte_of_int by (rule s16_bytes [OF assms(1,2)])
qed

lemma quantise_range: "- 32767 \<le> quantise x \<and> quantise x \<le> 32767"
proof -
  let ?s = "max (- 1) (min 1 x)"
  have "- 32767 \<le> ?s * 32767" by simp
  then have "round (- 32767 :: rat) \<le> round (?s * 32767)" by (rule round_mono)
  moreover have "?s * 32767 \<le> 32767" by simp
  then have "round (?s * 32767) \<le> round (32767 :: rat)" by (rule round_mono)
  ultimately show ?thesis by (simp add: quantise_def Let_def)
qed

declare writeSamples.simps [simp del]

lemma writeSamples_layout:
  "length buf = 44 + 2 * length audioData \<Longrightarrow> i \<le> length audioData \<Longrightarrow>
   \<exists>out. writeSamples audioData i buf = Inr out \<and> length out = length buf
     \<and> (\<forall>j<44 + 2 * i. out ! j = buf ! j)
     \<and> (\<forall>k. i \<le> k \<and> k < length audioData \<longrightarrow>
            readInt16LE out (44 + 2 * k) = quantise (audioData ! k))"
proof (induction audioData i buf rule: writeSamples.induct)
  case (1 audioData i buf)
  show ?case
  proof (cases "i < length audioData")
    case False
    with "1.prems" show ?thesis by (simp add: writeSamples.simps)
  next
    case True
    let ?q = "quantise (audioData ! i)"
    let ?off = "44 + i * 2"
    let ?b1 = "buf[?off := of_int ?q, ?off + 1 := of_int (?q div 2 ^ 8)]"
    have range: "- (2 ^ 15) \<le> ?q" "?q < 2 ^ 15"
      using quantise_range [of "audioData ! i"] by simp_all
    have fits: "?off + 2 \<le> length buf" using True "1.prems" by simp
    have w: "writeInt16LE ?q ?off buf = Inr ?b1"
      using range fits by (simp add: writeInt16LE_def)
    have len1: "length ?b1 = 44 + 2 * length audioData" using "1.prems" by simp
    from "1.IH" [OF True w len1] True
    obtain out where rec: "writeSamples audioData (i + 1) ?b1 = Inr out"
      and len: "length out = length ?b1"
      and keep: "\<forall>j<44 + 2 * (i + 1). out ! j = ?b1 ! j"
      and later: "\<forall>k. i + 1 \<le> k \<and> k < length audioData \<longrightarrow>
            readInt16LE out (44 + 2 * k) = quantise (audioData ! k)"
      by auto
    have res: "writeSamples audioData i buf = Inr out"
      using True w rec by (subst writeSamples.simps) simp
    have here: "readInt16LE out ?off = ?q"
    proof -
      have "out ! ?off = ?b1 ! ?off" "out ! (?off + 1) = ?b1 ! (?off + 1)"
        using keep by simp_all
      then have "readInt16LE out ?off = readInt16LE ?b1 ?off"
        by (simp add: readInt16LE_def)
      also have "\<dots> = ?q" by (rule read_written_s16 [OF range fits])
      finally show ?thesis .
    qed
    have before: "\<forall>j<44 + 2 * i. out ! j = buf ! j"
    proof (intro allI impI)
      fix j assume j: "j < 44 + 2 * i"
      then have "out ! j = ?b1 ! j" using keep by simp
      also have "\<dots> = buf ! j" using j by simp
      finally show "out ! j = buf ! j" .
    qed
    have all: "\<forall>k. i \<le> k \<and> k < length audioData \<longrightarrow>
            readInt16LE out (44 + 2 * k) = quantise (audioData ! k)"
    proof (intro allI impI)
      fix k assume k: "i \<le> k \<and> k < length audioData"
      show "readInt16LE out (44 + 2 * k) = quantise (audioData ! k)"
      proof (cases "k = i")
        case True
        then show ?thesis using here by (simp add: mult.commute)
      next
        case False
        with k later show ?thesis by simp
      qed
    qed
    from res len before all show ?thesis by simp
  qed
qed

lemma read_u32_bytes:
  assumes "v < 2 ^ 32" and "buf ! offset = of_nat v" and "buf ! (offset + 1) = of_nat (v div 2 ^ 8)"
    and "buf ! (offset + 2) = of_nat (v div 2 ^ 16)" and "buf ! (offset + 3) = of_nat (v div 2 ^ 24)"
  shows "readUInt32LE buf offset = v"
  unfolding readUInt32LE_def assms(2-5) unat_byte_of_nat by (rule u32_bytes [OF assms(1)])

lemma read_u16_bytes:
  assumes "v < 2 ^ 16" and "buf ! offset = of_nat v" and "buf ! (offset + 1) = of_nat (v div 2 ^ 8)"
  shows "readUInt16LE buf offset = v"
  unfolding readUInt16LE_def assms(2-3) unat_byte_of_nat by (rule u16_bytes [OF assms(1)])

lemma header_written:
  assumes "n < 2147483630"
  shows "\<exists>h. run_writes (header_writes n 16000) (buffer_alloc (44 + n * 2)) = Inr h
     \<and> length h = 44 + 2 * n
     \<and> [h ! 0, h ! 1, h ! 2, h ! 3] = map byte_of_char ''RIFF''
     \<and> h ! 4 = of_nat (36 + 2 * n) \<and> h ! 5 = of_nat ((36 + 2 * n) div 2 ^ 8)
     \<and> h ! 6 = of_nat ((36 + 2 * n) div 2 ^ 16) \<and> h ! 7 = of_nat ((36 + 2 * n) div 2 ^ 24)
     \<and> [h ! 8, h ! 9, h ! 10, h ! 11] = map byte_of_char ''WAVE''
     \<and> [h ! 12, h ! 13, h ! 14, h ! 15] = map byte_of_char ''fmt ''
     \<and> h ! 16 = of_nat 16 \<and> h ! 17 = of_nat (16 div 2 ^ 8)
     \<and> h ! 18 = of_nat (16 div 2 ^ 16) \<and> h ! 19 = of_nat (16 div 2 ^ 24)
     \<and> h ! 20 = of_nat 1 \<and> h ! 21 = of_nat (1 div 2 ^ 8)
     \<and> h ! 22 = of_nat 1 \<and> h ! 23 = of_nat (1 div 2 ^ 8)
     \<and> h ! 24 = of_nat 16000 \<and> h ! 25 = of_nat (16000 div 2 ^ 8)
     \<and> h ! 26 = of_nat (16000 div 2 ^ 16) \<and> h ! 27 = of_nat (16000 div 2 ^ 24)
     \<and> h ! 28 = of_nat 32000 \<and> h ! 29 = of_nat (32000 div 2 ^ 8)
     \<and> h ! 30 = of_nat (32000 div 2 ^ 16) \<and> h ! 31 = of_nat (32000 div 2 ^ 24)
     \<and> h ! 32 = of_nat 2 \<and> h ! 33 = of_nat (2 div 2 ^ 8)
     \<and> h ! 34 = of_nat 16 \<and> h ! 35 = of_nat (16 div 2 ^ 8)
     \<and> [h ! 36, h ! 37, h ! 38, h ! 39] = map byte_of_char ''data''
     \<and> h ! 40 = of_nat (2 * n) \<and> h ! 41 = of_nat (2 * n div 2 ^ 8)
     \<and> h ! 42 = of_nat (2 * n div 2 ^ 16) \<and> h ! 43 = of_nat (2 * n div 2 ^ 24)"
  using assms
  by (simp add: header_writes_def run_writes_def buffer_write_def writeUInt32LE_def
      writeUInt16LE_def buffer_alloc_def upt_conv_Cons byte_of_char_def mult.commute
      numeral_2_eq_2 [symmetric] numeral_3_eq_3 [symmetric])

lemma writeWavFile_header_writes:
  "writeWavFile audioData sampleRate =
     (case run_writes (header_writes (length audioData) sampleRate)
             (buffer_alloc (44 + length audioData * 2)) of
        Inl e \<Rightarrow> Inl e
      | Inr header \<Rightarrow> writeSamples audioData 0 header)"
  by (simp only: writeWavFile_def header_writes_def Let_def)

lemma writeWavFile_too_long:
  assumes "2147483630 \<le> length audioData"
  shows "writeWavFile audioData 16000 = Inl RangeError"
  using assms
  by (simp add: writeWavFile_def Let_def run_writes_def buffer_write_def writeUInt32LE_def)

text \<open>
  C6, amended. For \<open>N\<close> samples with \<open>44 + 2N - 8 < 2^32\<close>, \<open>writeWavFile\<close> at
  16000 Hz produces 44 header bytes and \<open>2N\<close> data bytes: \<open>RIFF\<close>, the size
  \<open>44 + 2N - 8\<close>, \<open>WAVE\<close>, \<open>fmt\<close> with chunk size 16, format tag 1 (PCM), one
  channel, sample rate 16000, byte rate \<open>16000 * 2\<close>, block align 2, 16 bits per sample,
  \<open>data\<close> with size \<open>2N\<close>, and sample \<open>i\<close> at offset \<open>44 + 2i\<close> as the signed
  little-endian 16-bit value of the input clamped to [-1, 1], times 32767, rounded.
\<close>

theorem writeWavFile_layout:
  assumes "length audioData < 2147483630"
  shows "\<exists>buf. writeWavFile audioData 16000 = Inr buf
     \<and> length buf = 44 + 2 * length audioData
     \<and> [buf ! 0, buf ! 1, buf ! 2, buf ! 3] = map byte_of_char ''RIFF''
     \<and> readUInt32LE buf 4 = 44 + 2 * length audioData - 8
     \<and> [buf ! 8, buf ! 9, buf ! 10, buf ! 11] = map byte_of_char ''WAVE''
     \<and> [buf ! 12, buf ! 13, buf ! 14, buf ! 15] = map byte_of_char ''fmt ''
     \<and> readUInt32LE buf 16 = 16
     \<and> readUInt16LE buf 20 = 1
     \<and> readUInt16LE buf 22 = 1
     \<and> readUInt32LE buf 24 = 16000
     \<and> readUInt32LE buf 28 = 16000 * 2
     \<and> readUInt16LE buf 32 = 2
     \<and> readUInt16LE buf 34 = 16
     \<and> [buf ! 36, buf ! 37, buf ! 38, buf ! 39] = map byte_of_char ''data''
     \<and> readUInt32LE buf 40 = 2 * length audioData
     \<and> (\<forall>i<length audioData.
           readInt16LE buf (44 + 2 * i) = round (max (- 1) (min 1 (audioData ! i)) * 32767))"
proof -
  let ?n = "length audioData"
  from header_written [OF assms] obtain h
    where run: "run_writes (header_writes ?n 16000) (buffer_alloc (44 + ?n * 2)) = Inr h"
    and len: "length h = 44 + 2 * ?n"
    and riff: "[h ! 0, h ! 1, h ! 2, h ! 3] = map byte_of_char ''RIFF''"
    and fs: "h ! 4 = of_nat (36 + 2 * ?n)" "h ! 5 = of_nat ((36 + 2 * ?n) div 2 ^ 8)"
      "h ! 6 = of_nat ((36 + 2 * ?n) div 2 ^ 16)" "h ! 7 = of_nat ((36 + 2 * ?n) div 2 ^ 24)"
    and wave: "[h ! 8, h ! 9, h ! 10, h ! 11] = map byte_of_char ''WAVE''"
    and fmt: "[h ! 12, h ! 13, h ! 14, h ! 15] = map byte_of_char ''fmt ''"
    and cs: "h ! 16 = of_nat 16" "h ! 17 = of_nat (16 div 2 ^ 8)"
      "h ! 18 = of_nat (16 div 2 ^ 16)" "h ! 19 = of_nat (16 div 2 ^ 24)"
    and tag: "h ! 20 = of_nat 1" "h ! 21 = of_nat (1 div 2 ^ 8)"
    and chn: "h ! 22 = of_nat 1" "h ! 23 = of_nat (1 div 2 ^ 8)"
    and sr: "h ! 24 = of_nat 16000" "h ! 25 = of_nat (16000 div 2 ^ 8)"
      "h ! 26 = of_nat (16000 div 2 ^ 16)" "h ! 27 = of_nat (16000 div 2 ^ 24)"
    and br: "h ! 28 = of_nat 32000" "h ! 29 = of_nat (32000 div 2 ^ 8)"
      "h ! 30 = of_nat (32000 div 2 ^ 16)" "h ! 31 = of_nat (32000 div 2 ^ 24)"
    and ba: "h ! 32 = of_nat 2" "h ! 33 = of_nat (2 div 2 ^ 8)"
    and bps: "h ! 34 = of_nat 16" "h ! 35 = of_nat (16 div 2 ^ 8)"
    and data: "[h ! 36, h ! 37, h ! 38, h ! 39] = map byte_of_char ''data''"
    and ds: "h ! 40 = of_nat (2 * ?n)" "h ! 41 = of_nat (2 * ?n div 2 ^ 8)"
      "h ! 42 = of_nat (2 * ?n div 2 ^ 16)" "h ! 43 = of_nat (2 * ?n div 2 ^ 24)"
    by (elim exE conjE) (rule that; assumption)
  from writeSamples_layout [OF len, of 0] obtain buf
    where ws: "writeSamples audioData 0 h = Inr buf"
    and blen: "length buf = length h"
    and keep: "\<forall>j<44. buf ! j = h ! j"
    and samples: "\<forall>k. k < ?n \<longrightarrow> readInt16LE buf (44 + 2 * k) = quantise (audioData ! k)"
    by auto
  have k: "buf ! j = h ! j" if "j < 44" for j using keep that by blast
  have res: "writeWavFile audioData 16000 = Inr buf"
    by (simp add: writeWavFile_header_writes run ws)
  have f1: "readUInt32LE buf 4 = 44 + 2 * ?n - 8"
  proof -
    have "readUInt32LE buf 4 = 36 + 2 * ?n"
      by (rule read_u32_bytes) (use assms in \<open>simp_all add: k fs\<close>)
    then show ?thesis by simp
  qed
  have f2: "readUInt32LE buf 16 = 16" by (rule read_u32_bytes) (simp_all add: k cs)
  have f3: "readUInt16LE buf 20 = 1" by (rule read_u16_bytes) (simp_all add: k tag)
  have f4: "readUInt16LE buf 22 = 1" by (rule read_u16_bytes) (simp_all add: k chn)
  have f5: "readUInt32LE buf 24 = 16000" by (rule read_u32_bytes) (simp_all add: k sr)
  have "readUInt32LE buf 28 = 32000" by (rule read_u32_bytes) (simp_all add: k br)
  then have f6: "readUInt32LE buf 28 = 16000 * 2" by simp
  have f7: "readUInt16LE buf 32 = 2" by (rule read_u16_bytes) (simp_all add: k ba)
  have f8: "readUInt16LE buf 34 = 16" by (rule read_u16_bytes) (simp_all add: k bps)
  have f9: "readUInt32LE buf 40 = 2 * ?n"
    by (rule read_u32_bytes) (use assms in \<open>simp_all add: k ds\<close>)
  have s1: "[buf ! 0, buf ! 1, buf ! 2, buf ! 3] = map byte_of_char ''RIFF''"
    using riff by (simp add: k)
  have s2: "[buf ! 8, buf ! 9, buf ! 10, buf ! 11] = map byte_of_char ''WAVE''"
    using wave by (simp add: k)
  have s3: "[buf ! 12, buf ! 13, buf ! 14, buf ! 15] = map byte_of_char ''fmt ''"
    using fmt by (simp add: k)
  have s4: "[buf ! 36, buf ! 37, buf ! 38, buf ! 39] = map byte_of_char ''data''"
    using data by (simp add: k)
  have q: "\<forall>i<?n. readInt16LE buf (44 + 2 * i) = round (max (- 1) (min 1 (audioData ! i)) * 32767)"
    using samples by (simp add: quantise_def Let_def)
  have l: "length buf = 44 + 2 * ?n" using blen len by simp
  show ?thesis
    by (rule exI [of _ buf]) (intro conjI res l s1 f1 s2 s3 f2 f3 f4 f5 f6 f7 f8 s4 f9 q)
qed

text \<open>
  C6, as stated for every length, fails: for 2147483630 samples the RIFF size would be
  \<open>2^32\<close>, which \<open>writeUInt32LE\<close> refuses, and no buffer is produced.
\<close>

theorem writeWavFile_too_long_for_header:
  "writeWavFile (replicate 2147483630 0) 16000 = Inl RangeError"
  by (rule writeWavFile_too_long) (simp only: length_replicate order_refl)

theorem writeWavFile_layout_witness:
  "length [1 / 2, - 1 / 2, 0, 2, - 3 :: rat] < 2147483630
   \<and> (\<exists>buf. writeWavFile [1 / 2, - 1 / 2, 0, 2, - 3] 16000 = Inr buf
        \<and> length buf = 54 \<and> readUInt32LE buf 4 = 46 \<and> readUInt32LE buf 40 = 10
        \<and> readInt16LE buf 44 = 16384 \<and> readInt16LE buf 46 = - 16383
        \<and> readInt16LE buf 48 = 0 \<and> readInt16LE buf 50 = 32767
        \<and> readInt16LE buf 52 = - 32767)"
proof -
  let ?a = "[1 / 2, - 1 / 2, 0, 2, - 3 :: rat]"
  have a: "length ?a < 2147483630" by simp
  from writeWavFile_layout [OF a] obtain buf
    where r: "writeWavFile ?a 16000 = Inr buf"
    and l: "length buf = 44 + 2 * length ?a"
    and f: "readUInt32LE buf 4 = 44 + 2 * length ?a - 8"
    and d: "readUInt32LE buf 40 = 2 * length ?a"
    and q: "\<forall>i<length ?a. readInt16LE buf (44 + 2 * i) = round (max (- 1) (min 1 (?a ! i)) * 32767)"
    by (elim exE conjE) (rule that; assumption)
  have q0: "readInt16LE buf 44 = 16384" using q [rule_format, of 0] by (simp add: round_def)
  have q1: "readInt16LE buf 46 = - 16383" using q [rule_format, of 1] by (simp add: round_def)
  have q2: "readInt16LE buf 48 = 0" using q [rule_format, of 2] by simp
  have q3: "readInt16LE buf 50 = 32767" using q [rule_format, of 3] by simp
  have q4: "readInt16LE buf 52 = - 32767" using q [rule_format, of 4] by simp
  have l': "length buf = 54" using l by simp
  have f': "readUInt32LE buf 4 = 46" using f by simp
  have d': "readUInt32LE buf 40 = 10" using d by simp
  show ?thesis
    by (rule conjI [OF a]) (rule exI [of _ buf], intro conjI r l' f' d' q0 q1 q2 q3 q4)
qed

section \<open>Provisioning is idempotent\<close>

lemma initialize_provisioned:
  assumes "provisioned env modelId w"
  shows "\<exists>name. modelFileNameOf modelId = Some name
     \<and> initialize env modelId (dt, w) =
     (Inr (),
      dt\<lparr>whisperPath := findInDir (path_join (pluginDir env) ''bin'') (binEntries w)
              (execNames (getPlatformInfo (processPlatform env) (processArch env))),
         modelPath := Some (path_join (path_join (pluginDir env) ''models'') name),
         initialized := True\<rparr>,
      w\<lparr>progress := progress w @ [''ready'']\<rparr>)"
proof -
  from assms obtain name where nm: "modelFileNameOf modelId = Some name"
    and there: "name \<in> set (entriesOf (modelFiles w))"
    by (auto simp: provisioned_def split: option.splits)
  have "binEntries w \<noteq> None"
    using assms by (cases "binEntries w") (simp_all add: provisioned_def findInDir_def)
  moreover have "modelFiles w \<noteq> None"
    using there by (cases "modelFiles w") (simp_all add: entriesOf_def)
  ultimately obtain es ms where b: "binEntries w = Some es" and m: "modelFiles w = Some ms"
    by auto
  have w1: "w\<lparr>binEntries := ensureDir (binEntries w), modelFiles := ensureDir (modelFiles w)\<rparr> = w"
    by (simp add: b m ensureDir_def)
  have "initialize env modelId (dt, w) =
     (Inr (),
      dt\<lparr>whisperPath := findInDir (path_join (pluginDir env) ''bin'') (binEntries w)
              (execNames (getPlatformInfo (processPlatform env) (processArch env))),
         modelPath := Some (path_join (path_join (pluginDir env) ''models'') name),
         initialized := True\<rparr>,
      w\<lparr>progress := progress w @ [''ready'']\<rparr>)"
    using assms there unfolding initialize_def Let_def fst_conv snd_conv w1 nm
    by (auto simp: provisioned_def)
  with nm show ?thesis by blast
qed

lemma downloadModel_success:
  assumes "downloadModel env name dest w = (Inr u, w')"
  shows "name \<in> set (entriesOf (modelFiles w')) \<and> binEntries w' = binEntries w"
  using assms
  by (auto simp: downloadModel_def downloadFile_def entriesOf_def split: sum.splits)

lemma initialize_success_provisioned:
  assumes "initialize env modelId (dt, w) = (Inr u, dt', w')"
  shows "provisioned env modelId w'"
proof -
  let ?binDir = "path_join (pluginDir env) ''bin''"
  let ?modelsDir = "path_join (pluginDir env) ''models''"
  let ?info = "getPlatformInfo (processPlatform env) (processArch env)"
  let ?w1 = "w\<lparr>binEntries := ensureDir (binEntries w), modelFiles := ensureDir (modelFiles w)\<rparr>"
  let ?dt1 = "dt\<lparr>whisperPath := findInDir ?binDir (binEntries ?w1) (execNames ?info)\<rparr>"
  define located where "located =
            (if whisperPath ?dt1 = None then
               (let w2 = ?w1\<lparr>progress := progress ?w1 @ [''downloading'']\<rparr> in
                case downloadExecutable env ?binDir ?info w2 of
                  (Inl e, w3) \<Rightarrow> (Inl e, ?dt1, w3)
                | (Inr _, w3) \<Rightarrow>
                    (let dt2 = ?dt1\<lparr>whisperPath :=
                                 findInDir ?binDir (binEntries w3) (execNames ?info)\<rparr>
                     in if whisperPath dt2 = None
                        then (Inl (Error ''Could not find whisper executable after extraction''),
                              dt2, w3)
                        else (Inr (), dt2, w3)))
             else (Inr (), ?dt1, ?w1))"
  obtain r dt3 w4 where l: "located = (r, dt3, w4)" by (cases located)
  have init: "initialize env modelId (dt, w) =
      (case located of
           (Inl e, dt3, w4) \<Rightarrow> (Inl e, dt3, w4)
         | (Inr _, dt3, w4) \<Rightarrow>
             (case modelFileNameOf modelId of
                None \<Rightarrow> (Inl TypeError, dt3, w4)
              | Some modelFileName \<Rightarrow>
                  (let dt4 = dt3\<lparr>modelPath := Some (path_join ?modelsDir modelFileName)\<rparr>;
                       fetched =
                         (if modelFileName \<notin> set (entriesOf (modelFiles w4)) then
                            downloadModel env modelFileName (path_join ?modelsDir modelFileName)
                              (w4\<lparr>progress := progress w4 @ [''downloading'']\<rparr>)
                          else (Inr (), w4))
                   in case fetched of
                        (Inl e, w5) \<Rightarrow> (Inl e, dt4, w5)
                      | (Inr _, w5) \<Rightarrow>
                          (Inr (), dt4\<lparr>initialized := True\<rparr>,
                           w5\<lparr>progress := progress w5 @ [''ready'']\<rparr>))))"
    unfolding initialize_def located_def Let_def fst_conv snd_conv ..
  from assms init l obtain v where r: "r = Inr v" by (cases r) auto
  from assms init l r obtain name where nm: "modelFileNameOf modelId = Some name"
    by (cases "modelFileNameOf modelId") auto
  have found: "findInDir ?binDir (binEntries w4) (execNames ?info) \<noteq> None"
    using l r unfolding located_def Let_def
    by (auto split: if_splits prod.splits sum.splits)
  define fetched where "fetched =
                    (if name \<notin> set (entriesOf (modelFiles w4)) then
                       downloadModel env name (path_join ?modelsDir name)
                         (w4\<lparr>progress := progress w4 @ [''downloading'']\<rparr>)
                     else (Inr (), w4))"
  obtain q w5 where f: "fetched = (q, w5)" by (cases fetched)
  from assms have w': "w' = w5\<lparr>progress := progress w5 @ [''ready'']\<rparr>" and "\<exists>v. q = Inr v"
    unfolding init l r nm using f unfolding fetched_def Let_def
    by (auto split: sum.splits)
  then obtain v' where q: "q = Inr v'" by blast
  have "name \<in> set (entriesOf (modelFiles w5)) \<and> binEntries w5 = binEntries w4"
  proof (cases "name \<in> set (entriesOf (modelFiles w4))")
    case True
    then show ?thesis using f unfolding fetched_def by simp
  next
    case False
    then have "downloadModel env name (path_join ?modelsDir name)
                 (w4\<lparr>progress := progress w4 @ [''downloading'']\<rparr>) = (Inr v', w5)"
      using f q unfolding fetched_def by simp
    from downloadModel_success [OF this] show ?thesis by simp
  qed
  then show ?thesis using found by (simp add: provisioned_def w' nm)
qed

text \<open>
  C7. With the executable present under \<open>bin\<close> and the file that \<open>modelId\<close> maps to
  present in \<open>models\<close>, \<open>initialize\<close> succeeds with the existing paths, whatever the
  network would answer, and sends no request: the world changes only by the status
  \<open>ready\<close>. After a successful \<open>initialize\<close>, a second one on the same host succeeds
  and sends no request either. (A \<open>modelId\<close> that names a member of \<open>Object.prototype\<close>
  maps to no file: \<open>initialize\<close> then fails in \<open>path.join\<close>, so there is neither a
  mapped model file nor a successful first call.)
\<close>

theorem initialize_idempotent:
  "(provisioned env modelId w \<longrightarrow>
      (\<exists>name. modelFileNameOf modelId = Some name
        \<and> initialize env modelId (dt, w) =
        (Inr (),
         dt\<lparr>whisperPath := findInDir (path_join (pluginDir env) ''bin'') (binEntries w)
                 (execNames (getPlatformInfo (processPlatform env) (processArch env))),
            modelPath := Some (path_join (path_join (pluginDir env) ''models'') name),
            initialized := True\<rparr>,
         w\<lparr>progress := progress w @ [''ready'']\<rparr>)))
   \<and> (initialize env modelId (dt, w) = (Inr (), dt', w')
        \<and> pluginDir env2 = pluginDir env \<and> processPlatform env2 = processPlatform env
        \<and> processArch env2 = processArch env \<longrightarrow>
        fst (initialize env2 modelId (dt', w')) = Inr ()
        \<and> requests (snd (snd (initialize env2 modelId (dt', w')))) = requests w')"
proof (intro conjI impI)
  assume "provisioned env modelId w"
  then show "\<exists>name. modelFileNameOf modelId = Some name
        \<and> initialize env modelId (dt, w) =
        (Inr (),
         dt\<lparr>whisperPath := findInDir (path_join (pluginDir env) ''bin'') (binEntries w)
                 (execNames (getPlatformInfo (processPlatform env) (processArch env))),
            modelPath := Some (path_join (path_join (pluginDir env) ''models'') name),
            initialized := True\<rparr>,
         w\<lparr>progress := progress w @ [''ready'']\<rparr>)"
    by (rule initialize_provisioned)
next
  assume a: "initialize env modelId (dt, w) = (Inr (), dt', w')
        \<and> pluginDir env2 = pluginDir env \<and> processPlatform env2 = processPlatform env
        \<and> processArch env2 = processArch env"
  then have "provisioned env modelId w'" by (blast intro: initialize_success_provisioned)
  with a have p: "provisioned env2 modelId w'" by (simp add: provisioned_def)
  from initialize_provisioned [OF p, of dt']
  show "fst (initialize env2 modelId (dt', w')) = Inr ()"
    and "requests (snd (snd (initialize env2 modelId (dt', w')))) = requests w'"
    by auto
qed

lemmas initialize_eval = initialize_def Let_def linux_online_def linux_offline_def
  new_transcriber_def empty_world_def provisioned_world_def ready_transcriber_def
  getPlatformInfo_def path_join_def ensureDir_def entriesOf_def findInDir_def
  downloadExecutable_def getLatestReleaseUrl_def downloadFile_def downloadModel_def
  modelFileNameOf_def MODEL_MAP_def MODEL_BASE_URL_def provisioned_def
  Object_prototype_members_def

lemma first_initialize:
  "initialize linux_online ''Xenova/whisper-base.en'' (new_transcriber, empty_world)
     = (Inr (), ready_transcriber, provisioned_world)"
  by (simp add: initialize_eval)

text \<open>
  An unknown \<open>modelId\<close> falls back to the default model; one that names an inherited
  member makes \<open>initialize\<close> fail after the executable has been located.
\<close>

lemma modelFileNameOf_examples:
  "modelFileNameOf ''Xenova/whisper-small'' = Some ''ggml-small.bin''
   \<and> modelFileNameOf ''my-model'' = Some ''ggml-base.en.bin''
   \<and> modelFileNameOf [] = Some ''ggml-base.en.bin''
   \<and> modelFileNameOf ''constructor'' = None
   \<and> modelFileNameOf ''__proto__'' = None"
  by (simp add: modelFileNameOf_def MODEL_MAP_def Object_prototype_members_def)

lemma initialize_inherited_member:
  "initialize linux_offline ''constructor'' (new_transcriber, provisioned_world)
     = (Inl TypeError,
        new_transcriber\<lparr>whisperPath := Some ''vault/plugin/bin/build/whisper-cli''\<rparr>,
        provisioned_world)"
  by (simp add: initialize_eval)

theorem initialize_idempotent_witness:
  "provisioned linux_offline ''Xenova/whisper-base.en'' provisioned_world
   \<and> initialize linux_offline ''Xenova/whisper-base.en'' (new_transcriber, provisioned_world)
       = (Inr (), ready_transcriber,
          provisioned_world\<lparr>progress := progress provisioned_world @ [''ready'']\<rparr>)
   \<and> initialize linux_online ''Xenova/whisper-base.en'' (new_transcriber, empty_world)
       = (Inr (), ready_transcriber, provisioned_world)
   \<and> fst (initialize linux_offline ''Xenova/whisper-base.en''
             (ready_transcriber, provisioned_world)) = Inr ()
   \<and> requests (snd (snd (initialize linux_offline ''Xenova/whisper-base.en''
             (ready_transcriber, provisioned_world)))) = requests provisioned_world"
proof -
  have p: "provisioned linux_offline ''Xenova/whisper-base.en'' provisioned_world"
    by (simp add: initialize_eval)
  have same: "pluginDir linux_offline = pluginDir linux_online"
    "processPlatform linux_offline = processPlatform linux_online"
    "processArch linux_offline = processArch linux_online"
    by (simp_all add: linux_offline_def)
  note a = initialize_idempotent [of linux_offline "''Xenova/whisper-base.en''" provisioned_world
      new_transcriber]
  note b = initialize_idempotent [of linux_online "''Xenova/whisper-base.en''" empty_world
      new_transcriber ready_transcriber provisioned_world linux_offline]
  have 1: "initialize linux_offline ''Xenova/whisper-base.en'' (new_transcriber, provisioned_world)
       = (Inr (), ready_transcriber,
          provisioned_world\<lparr>progress := progress provisioned_world @ [''ready'']\<rparr>)"
    using a p by (auto simp add: initialize_eval)
  have 2: "fst (initialize linux_offline ''Xenova/whisper-base.en''
             (ready_transcriber, provisioned_world)) = Inr ()
   \<and> requests (snd (snd (initialize linux_offline ''Xenova/whisper-base.en''
             (ready_transcriber, provisioned_world)))) = requests provisioned_world"
    using b first_initialize same by blast
  from p 1 first_initialize 2 show ?thesis by blast
qed

section \<open>Cleaning up the temporary WAV file\<close>

lemma writeWavFile_succeeds:
  assumes "length audioData < 2147483630"
  shows "\<exists>buf. writeWavFile audioData 16000 = Inr buf"
proof -
  from header_written [OF assms] obtain h
    where run: "run_writes (header_writes (length audioData) 16000)
                  (buffer_alloc (44 + length audioData * 2)) = Inr h"
    and len: "length h = 44 + 2 * length audioData"
    by (elim exE conjE)
  from writeSamples_layout [OF len, of 0] obtain buf
    where "writeSamples audioData 0 h = Inr buf" by auto
  then show ?thesis by (simp add: writeWavFile_header_writes run)
qed

lemma transcribe_begin_written:
  assumes "transcribe_begin tmpdir now outcome audioData dt m = (Inr path, m1)"
  shows "map_of (tempFiles m1) path \<noteq> None"
  using assms
  by (auto simp: transcribe_begin_def spawn_def Let_def update_conv'
      split: if_splits sum.splits option.splits spawn_outcome.splits)

text \<open>
  Once the process object exists, each handler calls \<open>unlinkSync\<close> on the temporary
  file before anything else, so after a \<open>close\<close> event, or after an \<open>error\<close> event
  followed by a \<open>close\<close> event, the file is gone unless the deletion itself fails.
\<close>

lemma temp_wav_deleted_by_handlers:
  assumes "transcribe_begin tmpdir now outcome audioData dt m = (Inr path, m1)"
    and "events = [ProcClose code] \<or> events = [ProcError e, ProcClose code]"
  shows "path \<in> set (unlinkCalls (snd (deliver events out err path fails (None, m1))))
     \<and> (\<not> fails \<longrightarrow>
          map_of (tempFiles (snd (deliver events out err path fails (None, m1)))) path = None)"
proof -
  have "map_of (tempFiles m1) path \<noteq> None"
    by (rule transcribe_begin_written [OF assms(1)])
  with assms(2) show ?thesis
    by (auto simp: on_close_def on_error_def unlinkSync_def settle_def Let_def delete_conv')
qed

text \<open>
  C8. After the temporary WAV file has been written, \<open>transcribe\<close> has one more way
  out: \<open>spawn\<close> throws. No handler is installed yet and nothing catches the exception,
  so \<open>transcribe\<close> rejects, the file written a moment before is still there, and
  \<open>unlinkSync\<close> has not been called.
\<close>

theorem temp_wav_left_behind_when_spawn_throws:
  assumes "initialized dt" and "writeWavFile audioData 16000 = Inr buffer"
  shows "(\<exists>error. fst (transcribe_begin tmpdir now (SpawnThrows e) audioData dt m) = Inl error)
     \<and> map_of (tempFiles (snd (transcribe_begin tmpdir now (SpawnThrows e) audioData dt m)))
          (path_join tmpdir (''whisper-'' @ now @ ''.wav'')) = Some buffer
     \<and> unlinkCalls (snd (transcribe_begin tmpdir now (SpawnThrows e) audioData dt m))
          = unlinkCalls m"
  using assms
  by (simp add: transcribe_begin_def spawn_def Let_def update_conv' split: option.splits)

theorem temp_wav_left_behind_when_spawn_throws_witness:
  "initialized ready_transcriber
   \<and> fst (transcribe_begin ''/tmp'' ''1700000000000'' (SpawnThrows (Error ''spawn UNKNOWN'')) []
           ready_transcriber idle_machine) = Inl (Error ''spawn UNKNOWN'')
   \<and> map_of (tempFiles (snd (transcribe_begin ''/tmp'' ''1700000000000''
           (SpawnThrows (Error ''spawn UNKNOWN'')) [] ready_transcriber idle_machine)))
        ''/tmp/whisper-1700000000000.wav'' \<noteq> None
   \<and> unlinkCalls (snd (transcribe_begin ''/tmp'' ''1700000000000''
           (SpawnThrows (Error ''spawn UNKNOWN'')) [] ready_transcriber idle_machine)) = []"
proof -
  from writeWavFile_succeeds [of "[]"] obtain buf where w: "writeWavFile [] 16000 = Inr buf"
    by auto
  have i: "initialized ready_transcriber" by (simp add: ready_transcriber_def)
  have r: "fst (transcribe_begin ''/tmp'' ''1700000000000'' (SpawnThrows (Error ''spawn UNKNOWN'')) []
           ready_transcriber idle_machine) = Inl (Error ''spawn UNKNOWN'')"
    using w by (simp add: transcribe_begin_def spawn_def Let_def ready_transcriber_def)
  from temp_wav_left_behind_when_spawn_throws [OF i w, of "''/tmp''" "''1700000000000''"
      "Error ''spawn UNKNOWN''" idle_machine] i r
  show ?thesis by (simp add: path_join_def idle_machine_def)
qed

end
